theory Spec2Isabelle
  imports Main "HOL-Library.AList" "HOL-Library.Multiset"
begin

section \<open>Results of fallible, stateful calls\<close>

text \<open>
  Python exceptions are values. A call that may raise and that works on a mutable object
  returns either \<open>Raise e s\<close> (the exception and the object as the raise left it) or
  \<open>Ret x s\<close> (the returned value and the object after the call). A call that only reads
  returns a plain sum, \<open>Inl\<close> for the exception.
\<close>

datatype error =
    TypeError | ValueError | KeyError | IndexError | ZeroDivisionError
  | AssertionError | NotImplementedError | RuntimeError | EnvError

datatype ('x, 'st) res = Raise error 'st | Ret 'x 'st

fun final_state :: "('x, 'st) res \<Rightarrow> 'st" where
  "final_state (Raise e s) = s"
| "final_state (Ret x s) = s"

fun returns :: "('x, 'st) res \<Rightarrow> bool" where
  "returns (Raise e s) = False"
| "returns (Ret x s) = True"

fun value_of :: "('x, 'st) res \<Rightarrow> 'x option" where
  "value_of (Raise e s) = None"
| "value_of (Ret x s) = Some x"

section \<open>The search tree\<close>

text \<open>
  Modelled from the spec: the class \<open>MCTSNode\<close> of \<open>ginkgo_rl/utils/mcts.py\<close>, which the
  agents import and which is not among the sources. The fields are those of section 3 of
  the specification: visit count \<open>n\<close>, running sum \<open>q\<close>, maximum \<open>q_max\<close>, immediate
  reward \<open>q_step\<close>, the \<open>terminal\<close> flag, the beam marker \<open>in_beam\<close> and the children,
  an insertion-ordered dictionary from actions to nodes, kept as an association list.
  A node is identified by its path of actions from the root (its \<open>path\<close> attribute), so
  a reference to a node is that path, and an update of a node is an update of the tree
  at that path. The root's \<open>q_step\<close> is never read by the agents; it is \<open>0\<close> here.
\<close>

datatype ('a, 'r) node =
  MCTSNode (node_n: nat) (node_q: 'r) (q_max: 'r) (q_step: 'r)
    (terminal: bool) (in_beam: bool) (children: "('a \<times> ('a, 'r) node) list")

text \<open>Modelled from the spec: the constructor of \<open>MCTSNode\<close>, called as
  \<open>MCTSNode(None, [], reward_min=..., reward_max=...)\<close>: a fresh node; \<open>q_max\<close> starts
  at the configured minimum reward bound.\<close>

definition new_node :: "'r \<Rightarrow> 'r::zero \<Rightarrow> ('a, 'r) node" where
  "new_node reward_min qstep = MCTSNode 0 0 reward_min qstep False False []"

text \<open>The node reached from \<open>nd\<close> along a path, and the tree with \<open>f\<close> applied to that
  node. \<open>node.children[action]\<close> on a missing key is Python's KeyError, here \<open>None\<close>.\<close>

fun at_path :: "('a, 'r) node \<Rightarrow> 'a list \<Rightarrow> ('a, 'r) node option" where
  "at_path nd [] = Some nd"
| "at_path nd (a # p) =
     (case map_of (children nd) a of None \<Rightarrow> None | Some c \<Rightarrow> at_path c p)"

fun modify_at :: "(('a, 'r) node \<Rightarrow> ('a, 'r) node) \<Rightarrow> 'a list \<Rightarrow> ('a, 'r) node \<Rightarrow> ('a, 'r) node" where
  "modify_at f [] nd = f nd"
| "modify_at f (a # p) (MCTSNode k s m st t b cs) =
     MCTSNode k s m st t b (map (\<lambda>(x, c). if x = a then (x, modify_at f p c) else (x, c)) cs)"

text \<open>Modelled from the spec: the method \<open>set_terminal\<close> of \<open>MCTSNode\<close>, which sets
  the terminal flag.\<close>

definition set_terminal :: "bool \<Rightarrow> ('a, 'r) node \<Rightarrow> ('a, 'r) node" where
  "set_terminal t nd =
     MCTSNode (node_n nd) (node_q nd) (q_max nd) (q_step nd) t (in_beam nd) (children nd)"

text \<open>The assignment \<open>node.in_beam = True\<close> of the beam search.\<close>

definition mark_in_beam :: "('a, 'r) node \<Rightarrow> ('a, 'r) node" where
  "mark_in_beam nd =
     MCTSNode (node_n nd) (node_q nd) (q_max nd) (q_step nd) (terminal nd) True (children nd)"

text \<open>Modelled from the spec: the method \<open>expand\<close> of \<open>MCTSNode\<close>, called as
  \<open>node.expand(actions, step_rewards=step_rewards)\<close>: children are populated at most
  once; each child is a fresh node carrying its step reward. The dictionary is filled in
  the order of the actions; a repeated action keeps its first position and its last value,
  as a Python dictionary does.\<close>

definition expand :: "'r \<Rightarrow> 'a list \<Rightarrow> 'r list \<Rightarrow> ('a, 'r::zero) node \<Rightarrow> ('a, 'r) node" where
  "expand reward_min actions step_rewards nd =
     (if children nd \<noteq> [] then nd
      else MCTSNode (node_n nd) (node_q nd) (q_max nd) (q_step nd) (terminal nd) (in_beam nd)
             (foldl (\<lambda>al (a, r). AList.update a (new_node reward_min r) al) []
                (zip actions step_rewards)))"

text \<open>Modelled from the spec: the method \<open>give_reward\<close> of \<open>MCTSNode\<close>. One backup
  step at one node: increment \<open>n\<close>, add to \<open>q\<close>, raise \<open>q_max\<close> if exceeded.\<close>

definition give_reward1 :: "'r \<Rightarrow> ('a, 'r::{plus,linorder}) node \<Rightarrow> ('a, 'r) node" where
  "give_reward1 r nd =
     MCTSNode (Suc (node_n nd)) (node_q nd + r) (max (q_max nd) r) (q_step nd)
       (terminal nd) (in_beam nd) (children nd)"

text \<open>Modelled from the spec: \<open>node.give_reward(reward, backup=True)\<close> for the node at
  a path: the backup goes through that node and every ancestor up to the root.\<close>

fun give_reward :: "'r \<Rightarrow> 'a list \<Rightarrow> ('a, 'r::{plus,linorder}) node \<Rightarrow> ('a, 'r) node" where
  "give_reward r [] nd = give_reward1 r nd"
| "give_reward r (a # p) (MCTSNode k s m st t b cs) =
     give_reward1 r
       (MCTSNode k s m st t b (map (\<lambda>(x, c). if x = a then (x, give_reward r p c) else (x, c)) cs))"

text \<open>Modelled from the spec: the method \<open>children_q_steps\<close> of \<open>MCTSNode\<close>, the step
  rewards of the children in the order of the dictionary; and \<open>node.children.keys()\<close>.\<close>

definition children_q_steps :: "('a, 'r) node \<Rightarrow> 'r list" where
  "children_q_steps nd = map (\<lambda>(a, c). q_step c) (children nd)"

definition children_keys :: "('a, 'r) node \<Rightarrow> 'a list" where
  "children_keys nd = map fst (children nd)"

text \<open>Modelled from the spec: the selection rule shared by the methods \<open>select_greedy\<close>
  and \<open>select_best\<close> of \<open>MCTSNode\<close>. The best entry of a list of (action, score) pairs
  has the highest score, and among equal scores the lowest action identifier. With no
  entry there is nothing to select, and the selection raises.\<close>

fun best_of :: "('a::linorder \<times> 'r::linorder) list \<Rightarrow> ('a \<times> 'r) option" where
  "best_of [] = None"
| "best_of ((a, v) # xs) =
     (case best_of xs of
        None \<Rightarrow> Some (a, v)
      | Some (b, w) \<Rightarrow> if w < v \<or> (w = v \<and> a < b) then Some (a, v) else Some (b, w))"

definition select_by :: "(('a, 'r) node \<Rightarrow> 'r) \<Rightarrow> ('a::linorder, 'r::linorder) node \<Rightarrow> error + 'a" where
  "select_by score nd =
     (case best_of (map (\<lambda>(a, c). (a, score c)) (children nd)) of
        None \<Rightarrow> Inl ValueError
      | Some (a, v) \<Rightarrow> Inr a)"

text \<open>Modelled from the spec: the methods \<open>select_greedy\<close> and \<open>select_best\<close> of
  \<open>MCTSNode\<close>. \<open>node.select_greedy()\<close> is the child with the highest immediate step
  reward, \<open>node.select_best(mode="max")\<close> the child with the highest \<open>q_max\<close>, ties
  broken by the lowest action identifier.\<close>

definition select_greedy :: "('a::linorder, 'r::linorder) node \<Rightarrow> error + 'a" where
  "select_greedy nd = select_by q_step nd"

definition select_best_max :: "('a::linorder, 'r::linorder) node \<Rightarrow> error + 'a" where
  "select_best_max nd = select_by q_max nd"

section \<open>Collaborators and the agent\<close>

text \<open>
  The environment, the policy network and the tensor library are collaborators outside the
  sources; the agent code is modelled over any of them. An environment object is a value
  of type \<open>'e\<close>; a method that mutates it returns the new object. \<open>env_state\<close> is the
  attribute \<open>state\<close> (which may be \<open>None\<close>), \<open>isclose\<close> is
  \<open>np.all(np.isclose(a, b))\<close>, \<open>is_pair\<close> says whether \<open>_, _ = action\<close> unpacks,
  \<open>disable_reset\<close> is the assignment \<open>reset_at_episode_end = False\<close>,
  \<open>actor_probs\<close> is \<open>torch.cat\<close>, the network and the softmax on a batch of rows,
  a value returned by \<open>_evaluate_policy\<close> is \<open>None\<close>, a scalar or a vector,
  \<open>select_puct\<close> is the method of \<open>MCTSNode\<close> of that name, \<open>uniform_prob k\<close> is the
  float \<open>1. / k\<close> for \<open>k > 0\<close>, and \<open>find_legal_actions\<close> is the method of the base
  class \<open>Agent\<close>. Names keep the source's, without the leading underscore.
\<close>

datatype 'p policy_out = PNone | PScalar 'p | PVector "'p list"

record ('e, 's, 'a, 'r, 'i, 'p) collab =
  env_state :: "'e \<Rightarrow> 's option"
  disable_reset :: "'e \<Rightarrow> 'e"
  get_internal_state :: "'e \<Rightarrow> 'i"
  set_internal_state :: "'e \<Rightarrow> 'i \<Rightarrow> 'e"
  set_verbose :: "'e \<Rightarrow> bool \<Rightarrow> 'e"
  env_step :: "'e \<Rightarrow> 'a \<Rightarrow> ('s \<times> 'r \<times> bool, 'e) res"
  compute_log_likelihood :: "'e \<Rightarrow> 'a \<Rightarrow> error + 'r"
  unwrap_action :: "'e \<Rightarrow> 'a \<Rightarrow> error + 'a"
  is_pair :: "'a \<Rightarrow> bool"
  isclose :: "'s \<Rightarrow> 's option \<Rightarrow> error + bool"
  tensorize :: "'s \<Rightarrow> 's"
  find_legal_actions :: "'s \<Rightarrow> 'a list"
  actor_probs :: "('a \<times> 'r option \<times> 's) list \<Rightarrow> error + 'p list"
  select_puct :: "('a, 'r) node \<Rightarrow> 'p policy_out \<Rightarrow> string \<Rightarrow> 'r \<Rightarrow> error + 'a"
  torch_log :: "'p \<Rightarrow> 'p"
  uniform_prob :: "nat \<Rightarrow> 'p"

datatype agent_class = BaseMCTSAgent | RandomMCTSAgent | MCTSAgent | MCBSAgent

text \<open>The attributes of an agent that the search reads or writes. \<open>env\<close> is the real
  environment, \<open>sim_env\<close> the private copy made by \<open>copy.deepcopy\<close>. The branches under
  \<open>verbose\<close> only log; the model is the code at the default \<open>verbose=False\<close>.\<close>

record ('e, 'a, 'r) agent =
  agent_class :: agent_class
  env :: 'e
  sim_env :: 'e
  mcts_head :: "('a, 'r) node"
  episode_reward :: 'r
  n_mc_target :: int
  n_mc_min :: int
  n_mc_max :: int
  mcts_mode :: string
  c_puct :: 'r
  reward_range :: "'r \<times> 'r"
  log_likelihood_feature :: bool
  self_beam_size :: int

section \<open>Path replay\<close>

text \<open>The guard of \<open>_parse_path\<close> and of \<open>_parse_action\<close>:
  \<open>self.sim_env.state is None or not np.all(np.isclose(self.sim_env.state, self.env.state))\<close>.\<close>

definition needs_resync ::
  "('e, 's, 'a, 'r, 'i, 'p) collab \<Rightarrow> ('e, 'a, 'r) agent \<Rightarrow> error + bool" where
  "needs_resync P ag =
     (case env_state P (sim_env ag) of
        None \<Rightarrow> Inr True
      | Some s \<Rightarrow>
          (case isclose P s (env_state P (env ag)) of
             Inl e \<Rightarrow> Inl e
           | Inr c \<Rightarrow> Inr (\<not> c)))"

text \<open>\<open>self.sim_env.set_internal_state(self.env.get_internal_state())\<close>.\<close>

definition resync ::
  "('e, 's, 'a, 'r, 'i, 'p) collab \<Rightarrow> ('e, 'a, 'r) agent \<Rightarrow> ('e, 'a, 'r) agent" where
  "resync P ag =
     ag\<lparr>sim_env := set_internal_state P (sim_env ag) (get_internal_state P (env ag))\<rparr>"

text \<open>The loop \<open>for action in path\<close> of \<open>_parse_path\<close>, on the copy.\<close>

fun follow_path ::
  "('e, 's, 'a, 'r::plus, 'i, 'p) collab \<Rightarrow> 'e \<Rightarrow> 's \<Rightarrow> 'r \<Rightarrow> 'a list
     \<Rightarrow> ('s \<times> 'r \<times> bool, 'e) res" where
  "follow_path P sim state total_reward [] = Ret (state, total_reward, False) sim"
| "follow_path P sim state total_reward (action # path) =
     (case env_step P sim action of
        Raise e sim' \<Rightarrow> Raise e sim'
      | Ret (state', reward, done) sim' \<Rightarrow>
          if done then Ret (state', total_reward + reward, True) sim'
          else follow_path P sim' state' (total_reward + reward) path)"

definition parse_path ::
  "('e, 's, 'a, 'r::{zero,plus}, 'i, 'p) collab \<Rightarrow> ('e, 'a, 'r) agent \<Rightarrow> 's \<Rightarrow> 'a list
     \<Rightarrow> ('s \<times> 'r \<times> bool, ('e, 'a, 'r) agent) res" where
  "parse_path P ag state path =
     (case needs_resync P ag of
        Inl e \<Rightarrow> Raise e ag
      | Inr b \<Rightarrow>
          (let ag1 = (if b then resync P ag else ag);
               sim1 = set_verbose P (sim_env ag1) False
           in case follow_path P sim1 state 0 path of
                Raise e sim' \<Rightarrow> Raise e (ag1\<lparr>sim_env := sim'\<rparr>)
              | Ret (state', total_reward, term) sim' \<Rightarrow>
                  Ret (tensorize P state', total_reward, term) (ag1\<lparr>sim_env := sim'\<rparr>)))"

text \<open>\<open>_parse_action(action, from_which_env="sim")\<close>: the log likelihood of an action
  in the current state of the copy. The \<open>try\<close> block unpacks the action and asks the
  copy; a TypeError from either goes to the \<open>except\<close> branch, which unwraps the action
  first.\<close>

definition log_likelihood_of ::
  "('e, 's, 'a, 'r, 'i, 'p) collab \<Rightarrow> 'e \<Rightarrow> 'a \<Rightarrow> error + 'r" where
  "log_likelihood_of P sim action =
     (case (if is_pair P action then compute_log_likelihood P sim action else Inl TypeError) of
        Inr ll \<Rightarrow> Inr ll
      | Inl e \<Rightarrow>
          if e = TypeError then
            (case unwrap_action P sim action of
               Inl e' \<Rightarrow> Inl e'
             | Inr action' \<Rightarrow> compute_log_likelihood P sim action')
          else Inl e)"

definition parse_action_sim ::
  "('e, 's, 'a, 'r, 'i, 'p) collab \<Rightarrow> ('e, 'a, 'r) agent \<Rightarrow> 'a
     \<Rightarrow> ('r, ('e, 'a, 'r) agent) res" where
  "parse_action_sim P ag action =
     (let ag1 = ag\<lparr>sim_env := set_verbose P (sim_env ag) False\<rparr>
      in case log_likelihood_of P (sim_env ag1) action of
           Inl e \<Rightarrow> Raise e ag1
         | Inr ll \<Rightarrow> Ret ll ag1)"

definition parse_action_real ::
  "('e, 's, 'a, 'r, 'i, 'p) collab \<Rightarrow> ('e, 'a, 'r) agent \<Rightarrow> 'a
     \<Rightarrow> ('r, ('e, 'a, 'r) agent) res" where
  "parse_action_real P ag action =
     (case needs_resync P ag of
        Inl e \<Rightarrow> Raise e ag
      | Inr b \<Rightarrow> parse_action_sim P (if b then resync P ag else ag) action)"

text \<open>The list comprehension
  \<open>[self._parse_action(action, from_which_env="sim") for action in actions]\<close>.\<close>

fun step_rewards_of ::
  "('e, 's, 'a, 'r, 'i, 'p) collab \<Rightarrow> ('e, 'a, 'r) agent \<Rightarrow> 'a list
     \<Rightarrow> ('r list, ('e, 'a, 'r) agent) res" where
  "step_rewards_of P ag [] = Ret [] ag"
| "step_rewards_of P ag (action # actions) =
     (case parse_action_sim P ag action of
        Raise e ag1 \<Rightarrow> Raise e ag1
      | Ret ll ag1 \<Rightarrow>
          (case step_rewards_of P ag1 actions of
             Raise e ag2 \<Rightarrow> Raise e ag2
           | Ret lls ag2 \<Rightarrow> Ret (ll # lls) ag2))"

section \<open>Policy evaluation\<close>

text \<open>\<open>RandomMCTSAgent._evaluate_policy(self, state, legal_actions, action=None)\<close>. The
  signature has no parameter \<open>step_rewards\<close>: a call that passes that keyword raises
  TypeError before the body runs. The argument \<open>step_rewards\<close> of the model is \<open>Some\<close>
  when the caller passes the keyword. In the branch \<open>action is not None\<close> the value is
  computed and dropped, and the method returns \<open>None\<close>.\<close>

definition evaluate_policy_random ::
  "('e, 's, 'a, 'r, 'i, 'p) collab \<Rightarrow> ('e, 'a, 'r) agent \<Rightarrow> 's \<Rightarrow> 'a list \<Rightarrow> 'r list option
     \<Rightarrow> 'a option \<Rightarrow> ('p policy_out, ('e, 'a, 'r) agent) res" where
  "evaluate_policy_random P ag state legal_actions step_rewards action =
     (if step_rewards \<noteq> None then Raise TypeError ag
      else if action \<noteq> None then
        (if length legal_actions = 0 then Raise ZeroDivisionError ag else Ret PNone ag)
      else
        (if length legal_actions = 0 then Raise ZeroDivisionError ag
         else Ret (PVector (replicate (length legal_actions)
                     (uniform_prob P (length legal_actions)))) ag))"

text \<open>\<open>np.clip(x, lo, hi)\<close>.\<close>

definition np_clip :: "'r::linorder \<Rightarrow> 'r \<Rightarrow> 'r \<Rightarrow> 'r" where
  "np_clip x lo hi = min (max x lo) hi"

text \<open>The loop of \<open>MCTSAgent._batch_state\<close> over \<open>zip(legal_actions, step_rewards)\<close>;
  a row is the action, the clipped log likelihood when it is a feature, and the state.\<close>

fun batch_rows ::
  "('e, 's, 'a, 'r::linorder, 'i, 'p) collab \<Rightarrow> ('e, 'a, 'r) agent \<Rightarrow> 's \<Rightarrow> ('a \<times> 'r option) list
     \<Rightarrow> (('a \<times> 'r option \<times> 's) list, ('e, 'a, 'r) agent) res" where
  "batch_rows P ag state [] = Ret [] ag"
| "batch_rows P ag state ((action, log_likelihood) # rest) =
     (if log_likelihood_feature ag then
        (case (case log_likelihood of
                 None \<Rightarrow> parse_action_real P ag action
               | Some ll \<Rightarrow> Ret ll ag) of
           Raise e ag1 \<Rightarrow> Raise e ag1
         | Ret ll ag1 \<Rightarrow>
             (case batch_rows P ag1 state rest of
                Raise e ag2 \<Rightarrow> Raise e ag2
              | Ret rows ag2 \<Rightarrow>
                  Ret ((action, Some (np_clip ll (fst (reward_range ag)) (snd (reward_range ag))),
                        state) # rows) ag2))
      else
        (case batch_rows P ag state rest of
           Raise e ag2 \<Rightarrow> Raise e ag2
         | Ret rows ag2 \<Rightarrow> Ret ((action, None, state) # rows) ag2))"

definition batch_state ::
  "('e, 's, 'a, 'r::linorder, 'i, 'p) collab \<Rightarrow> ('e, 'a, 'r) agent \<Rightarrow> 's \<Rightarrow> 'a list \<Rightarrow> 'r list option
     \<Rightarrow> (('a \<times> 'r option \<times> 's) list, ('e, 'a, 'r) agent) res" where
  "batch_state P ag state legal_actions step_rewards =
     batch_rows P ag state
       (zip legal_actions
          (case step_rewards of
             None \<Rightarrow> replicate (length legal_actions) None
           | Some rs \<Rightarrow> map Some rs))"

text \<open>\<open>legal_actions.index(action)\<close>, for an action that is in the list.\<close>

fun index_of :: "'a \<Rightarrow> 'a list \<Rightarrow> nat" where
  "index_of a [] = 0"
| "index_of a (x # xs) = (if x = a then 0 else Suc (index_of a xs))"

text \<open>\<open>MCTSAgent._evaluate_policy\<close>, inherited by \<open>MCBSAgent\<close>.\<close>

definition evaluate_policy_actor ::
  "('e, 's, 'a, 'r::linorder, 'i, 'p) collab \<Rightarrow> ('e, 'a, 'r) agent \<Rightarrow> 's \<Rightarrow> 'a list \<Rightarrow> 'r list option
     \<Rightarrow> 'a option \<Rightarrow> ('p policy_out, ('e, 'a, 'r) agent) res" where
  "evaluate_policy_actor P ag state legal_actions step_rewards action =
     (case batch_state P ag state legal_actions step_rewards of
        Raise e ag1 \<Rightarrow> Raise e ag1
      | Ret rows ag1 \<Rightarrow>
          (case actor_probs P rows of
             Inl e \<Rightarrow> Raise e ag1
           | Inr probs \<Rightarrow>
               (case action of
                  None \<Rightarrow> Ret (PVector probs) ag1
                | Some a \<Rightarrow>
                    if a \<notin> set legal_actions then Raise AssertionError ag1
                    else if index_of a legal_actions < length probs
                      then Ret (PScalar (probs ! index_of a legal_actions)) ag1
                    else Raise IndexError ag1)))"

text \<open>\<open>self._evaluate_policy(...)\<close>, dispatched on the class of the agent.\<close>

definition evaluate_policy ::
  "('e, 's, 'a, 'r::linorder, 'i, 'p) collab \<Rightarrow> ('e, 'a, 'r) agent \<Rightarrow> 's \<Rightarrow> 'a list \<Rightarrow> 'r list option
     \<Rightarrow> 'a option \<Rightarrow> ('p policy_out, ('e, 'a, 'r) agent) res" where
  "evaluate_policy P ag state legal_actions step_rewards action =
     (case agent_class ag of
        BaseMCTSAgent \<Rightarrow> Raise NotImplementedError ag
      | RandomMCTSAgent \<Rightarrow> evaluate_policy_random P ag state legal_actions step_rewards action
      | MCTSAgent \<Rightarrow> evaluate_policy_actor P ag state legal_actions step_rewards action
      | MCBSAgent \<Rightarrow> evaluate_policy_actor P ag state legal_actions step_rewards action)"

section \<open>The Monte Carlo tree search\<close>

text \<open>The block under \<open># Expand\<close>, the same in the three traversals: enumerate the legal
  actions of the replayed state, compute each one's step reward on the copy, attach the
  children to the node.\<close>

definition expand_node ::
  "('e, 's, 'a, 'r::zero, 'i, 'p) collab \<Rightarrow> ('e, 'a, 'r) agent \<Rightarrow> 's \<Rightarrow> 'a list
     \<Rightarrow> (unit, ('e, 'a, 'r) agent) res" where
  "expand_node P ag this_state node =
     (let actions = find_legal_actions P this_state
      in case step_rewards_of P ag actions of
           Raise e ag1 \<Rightarrow> Raise e ag1
         | Ret step_rewards ag1 \<Rightarrow>
             Ret () (ag1\<lparr>mcts_head :=
               modify_at (expand (fst (reward_range ag1)) actions step_rewards) node
                 (mcts_head ag1)\<rparr>))"

text \<open>\<open>node.set_terminal(terminal)\<close> and \<open>node.give_reward(reward, backup=True)\<close> on
  the node of the tree of the agent that a path refers to.\<close>

definition mark_terminal ::
  "('e, 'a, 'r) agent \<Rightarrow> 'a list \<Rightarrow> bool \<Rightarrow> ('e, 'a, 'r) agent" where
  "mark_terminal ag node t =
     ag\<lparr>mcts_head := modify_at (set_terminal t) node (mcts_head ag)\<rparr>"

definition backup ::
  "('e, 'a, 'r::{plus,linorder}) agent \<Rightarrow> 'a list \<Rightarrow> 'r \<Rightarrow> ('e, 'a, 'r) agent" where
  "backup ag node reward = ag\<lparr>mcts_head := give_reward reward node (mcts_head ag)\<rparr>"

text \<open>\<open>if not node.children:\<close> followed by the expansion.\<close>

definition expand_if_needed ::
  "('e, 's, 'a, 'r::zero, 'i, 'p) collab \<Rightarrow> ('e, 'a, 'r) agent \<Rightarrow> 's \<Rightarrow> 'a list
     \<Rightarrow> (unit, ('e, 'a, 'r) agent) res" where
  "expand_if_needed P ag this_state node =
     (case at_path (mcts_head ag) node of
        None \<Rightarrow> Raise KeyError ag
      | Some nd \<Rightarrow>
          if children nd = [] then expand_node P ag this_state node else Ret () ag)"

text \<open>The block under \<open># Select\<close> of \<open>_mcts\<close>: the policy over the children, the PUCT
  choice, and the lookup \<open>node.children[action]\<close>.\<close>

definition select_child ::
  "('e, 's, 'a, 'r::linorder, 'i, 'p) collab \<Rightarrow> ('e, 'a, 'r) agent \<Rightarrow> 's \<Rightarrow> 'a list
     \<Rightarrow> ('a, ('e, 'a, 'r) agent) res" where
  "select_child P ag this_state node =
     (case at_path (mcts_head ag) node of
        None \<Rightarrow> Raise KeyError ag
      | Some nd \<Rightarrow>
          (case evaluate_policy P ag this_state (children_keys nd)
                  (Some (children_q_steps nd)) None of
             Raise e ag1 \<Rightarrow> Raise e ag1
           | Ret policy_probs ag1 \<Rightarrow>
               (case select_puct P nd policy_probs (mcts_mode ag1) (c_puct ag1) of
                  Inl e \<Rightarrow> Raise e ag1
                | Inr action \<Rightarrow>
                    (case map_of (children nd) action of
                       None \<Rightarrow> Raise KeyError ag1
                     | Some c \<Rightarrow> Ret action ag1))))"

text \<open>The inner loop \<open>for _ in range(max_steps)\<close> of \<open>_mcts\<close>. The value is the node where
  the descent ended and the \<open>total_reward\<close> of the last replay.\<close>

fun mcts_descend ::
  "('e, 's, 'a, 'r::{zero,plus,linorder}, 'i, 'p) collab \<Rightarrow> 's \<Rightarrow> nat \<Rightarrow> ('e, 'a, 'r) agent
     \<Rightarrow> 'a list \<Rightarrow> 'r \<Rightarrow> ('a list \<times> 'r, ('e, 'a, 'r) agent) res" where
  "mcts_descend P state 0 ag node total_reward = Ret (node, total_reward) ag"
| "mcts_descend P state (Suc k) ag node total_reward =
     (case parse_path P ag state node of
        Raise e ag1 \<Rightarrow> Raise e ag1
      | Ret (this_state, total_reward', fin) ag1 \<Rightarrow>
          if fin then Ret (node, total_reward') (mark_terminal ag1 node fin)
          else
            (case expand_if_needed P (mark_terminal ag1 node fin) this_state node of
               Raise e ag3 \<Rightarrow> Raise e ag3
             | Ret u ag3 \<Rightarrow>
                 (case select_child P ag3 this_state node of
                    Raise e ag4 \<Rightarrow> Raise e ag4
                  | Ret action ag4 \<Rightarrow>
                      mcts_descend P state k ag4 (node @ [action]) total_reward')))"

text \<open>One pass of the outer loop: the descent from the root, then the backup of
  \<open>self.episode_reward + total_reward\<close> from the node where the descent ended.\<close>

definition mcts_pass ::
  "('e, 's, 'a, 'r::{zero,plus,linorder}, 'i, 'p) collab \<Rightarrow> 's \<Rightarrow> int \<Rightarrow> ('e, 'a, 'r) agent
     \<Rightarrow> (unit, ('e, 'a, 'r) agent) res" where
  "mcts_pass P state max_steps ag =
     (case mcts_descend P state (nat max_steps) ag [] 0 of
        Raise e ag1 \<Rightarrow> Raise e ag1
      | Ret (node, total_reward) ag1 \<Rightarrow>
          Ret () (backup ag1 node (episode_reward ag1 + total_reward)))"

text \<open>The number \<open>n\<close> of trajectories, lines 148 to 152 of the source.\<close>

definition mcts_budget ::
  "('e, 's, 'a, 'r, 'i, 'p) collab \<Rightarrow> ('e, 'a, 'r) agent \<Rightarrow> 's \<Rightarrow> int" where
  "mcts_budget P ag state =
     (if length (children (mcts_head ag)) = 1 then 1
      else
        (let n_initial_legal_actions = int (length (find_legal_actions P state))
         in min (max (n_mc_target ag * n_initial_legal_actions - int (node_n (mcts_head ag)))
                  (n_mc_min ag))
              (n_mc_max ag)))"

text \<open>The loop \<open>for i in range(n)\<close>; \<open>range(n)\<close> has \<open>nat n\<close> elements.\<close>

fun mcts_passes ::
  "('e, 's, 'a, 'r::{zero,plus,linorder}, 'i, 'p) collab \<Rightarrow> 's \<Rightarrow> int \<Rightarrow> nat \<Rightarrow> ('e, 'a, 'r) agent
     \<Rightarrow> (unit, ('e, 'a, 'r) agent) res" where
  "mcts_passes P state max_steps 0 ag = Ret () ag"
| "mcts_passes P state max_steps (Suc k) ag =
     (case mcts_pass P state max_steps ag of
        Raise e ag1 \<Rightarrow> Raise e ag1
      | Ret u ag1 \<Rightarrow> mcts_passes P state max_steps k ag1)"

text \<open>\<open>torch.log\<close> of what \<open>_evaluate_policy\<close> returned; \<open>torch.log(None)\<close> is a
  TypeError.\<close>

definition log_of :: "('e, 's, 'a, 'r, 'i, 'p) collab \<Rightarrow> 'p policy_out \<Rightarrow> error + 'p policy_out" where
  "log_of P out =
     (case out of
        PNone \<Rightarrow> Inl TypeError
      | PScalar p \<Rightarrow> Inr (PScalar (torch_log P p))
      | PVector ps \<Rightarrow> Inr (PVector (map (torch_log P) ps)))"

text \<open>\<open>_mcts(state, max_steps)\<close>. The value is the action and the entry \<open>log_prob\<close> of
  the dictionary \<open>info\<close>.\<close>

definition mcts ::
  "('e, 's, 'a::linorder, 'r::{zero,plus,linorder}, 'i, 'p) collab \<Rightarrow> ('e, 'a, 'r) agent \<Rightarrow> 's \<Rightarrow> int
     \<Rightarrow> ('a \<times> 'p policy_out, ('e, 'a, 'r) agent) res" where
  "mcts P ag state max_steps =
     (let n = mcts_budget P ag state
      in case mcts_passes P state max_steps (nat n) ag of
           Raise e ag1 \<Rightarrow> Raise e ag1
         | Ret u ag1 \<Rightarrow>
             (case select_best_max (mcts_head ag1) of
                Inl e \<Rightarrow> Raise e ag1
              | Inr action \<Rightarrow>
                  (case evaluate_policy P ag1 state (find_legal_actions P state)
                          (Some (children_q_steps (mcts_head ag1))) (Some action) of
                     Raise e ag2 \<Rightarrow> Raise e ag2
                   | Ret out ag2 \<Rightarrow>
                       (case log_of P out of
                          Inl e \<Rightarrow> Raise e ag2
                        | Inr log_prob \<Rightarrow> Ret (action, log_prob) ag2))))"

section \<open>Greedy expansion\<close>

text \<open>The loop \<open>while not node.terminal\<close> of \<open>MCBSAgent._greedy\<close>. Nothing in the
  source bounds it, so the model counts iterations down from a fuel: \<open>None\<close> is a loop
  still running when the fuel is spent. The value is the node where the loop stopped.
  \<open>greedy_child\<close> is the block under \<open># Greedily select next action\<close>.\<close>

definition greedy_child :: "('e, 'a::linorder, 'r::linorder) agent \<Rightarrow> 'a list \<Rightarrow> error + 'a" where
  "greedy_child ag node =
     (case at_path (mcts_head ag) node of
        None \<Rightarrow> Inl KeyError
      | Some nd \<Rightarrow>
          (case select_greedy nd of
             Inl e \<Rightarrow> Inl e
           | Inr action \<Rightarrow>
               (case map_of (children nd) action of
                  None \<Rightarrow> Inl KeyError
                | Some c \<Rightarrow> Inr action)))"

fun greedy_loop ::
  "nat \<Rightarrow> ('e, 's, 'a::linorder, 'r::{zero,plus,linorder}, 'i, 'p) collab \<Rightarrow> 's \<Rightarrow> ('e, 'a, 'r) agent
     \<Rightarrow> 'a list \<Rightarrow> ('a list, ('e, 'a, 'r) agent) res option" where
  "greedy_loop 0 P state ag node = None"
| "greedy_loop (Suc fuel) P state ag node =
     (case at_path (mcts_head ag) node of
        None \<Rightarrow> Some (Raise KeyError ag)
      | Some nd0 \<Rightarrow>
          if terminal nd0 then Some (Ret node ag)
          else
            (case parse_path P ag state node of
               Raise e ag1 \<Rightarrow> Some (Raise e ag1)
             | Ret (this_state, total_reward, fin) ag1 \<Rightarrow>
                 if fin then
                   greedy_loop fuel P state
                     (backup (mark_terminal ag1 node fin) node (episode_reward ag1 + total_reward))
                     node
                 else
                   (case expand_if_needed P (mark_terminal ag1 node fin) this_state node of
                      Raise e ag3 \<Rightarrow> Some (Raise e ag3)
                    | Ret u ag3 \<Rightarrow>
                        (case greedy_child ag3 node of
                           Inl e \<Rightarrow> Some (Raise e ag3)
                         | Inr action \<Rightarrow> greedy_loop fuel P state ag3 (node @ [action])))))"

definition greedy ::
  "nat \<Rightarrow> ('e, 's, 'a::linorder, 'r::{zero,plus,linorder}, 'i, 'p) collab \<Rightarrow> ('e, 'a, 'r) agent \<Rightarrow> 's
     \<Rightarrow> ('a list, ('e, 'a, 'r) agent) res option" where
  "greedy fuel P ag state = greedy_loop fuel P state ag []"

section \<open>Beam search\<close>

text \<open>\<open>sorted(xs, key=key, reverse=True)\<close>: descending, and stable (entries with equal
  keys keep their order). \<open>xs[:k]\<close>: the first \<open>k\<close> entries, or all but the last \<open>-k\<close>
  for a negative \<open>k\<close>.\<close>

definition sorted_desc :: "('x \<Rightarrow> 'k::linorder) \<Rightarrow> 'x list \<Rightarrow> 'x list" where
  "sorted_desc key xs = rev (sort_key key (rev xs))"

definition py_take :: "int \<Rightarrow> 'x list \<Rightarrow> 'x list" where
  "py_take k xs = (if 0 \<le> k then take (nat k) xs else take (length xs - nat (- k)) xs)"

text \<open>Modelled from the spec: the methods \<open>count_beam_children\<close>, \<open>__len__\<close> and
  \<open>select_beam_search\<close> of \<open>MCTSNode\<close>. The count is the number of children tagged
  \<open>in_beam\<close>; the selection takes up to \<open>beam_size\<close> children that are not tagged, by
  highest step reward, then lowest action identifier.\<close>

definition count_beam_children :: "('a, 'r) node \<Rightarrow> nat" where
  "count_beam_children nd = length (filter (\<lambda>(a, c). in_beam c) (children nd))"

definition select_beam_search :: "int \<Rightarrow> ('a::linorder, 'r::linorder) node \<Rightarrow> 'a list" where
  "select_beam_search beam_size nd =
     map fst
       (py_take beam_size
          (sorted_desc (\<lambda>(a, c). q_step c)
             (sort_key fst (filter (\<lambda>(a, c). \<not> in_beam c) (children nd)))))"

text \<open>The loop under \<open># Beam search selection\<close>: each selected child goes to the next
  frontier with the reward of the replay plus its step reward.\<close>

fun push_children ::
  "('a, 'r::plus) node \<Rightarrow> 'a list \<Rightarrow> 'r \<Rightarrow> 'a list \<Rightarrow> ('r \<times> 'a list) list
     \<Rightarrow> error + ('r \<times> 'a list) list" where
  "push_children nd node total_reward [] next_beam = Inr next_beam"
| "push_children nd node total_reward (action # actions) next_beam =
     (case map_of (children nd) action of
        None \<Rightarrow> Inl KeyError
      | Some c \<Rightarrow>
          push_children nd node total_reward actions
            (next_beam @ [(total_reward + q_step c, node @ [action])]))"

text \<open>The body of \<open>for i, (_, node) in enumerate(beam)\<close> for one entry of the frontier:
  replay, mark, expand or back up, then (\<open>beam_select\<close>) the skip test, the selection and
  the tag \<open>node.in_beam = True\<close>.\<close>

definition beam_select ::
  "int \<Rightarrow> ('e, 'a::linorder, 'r::{plus,linorder}) agent \<Rightarrow> 'a list \<Rightarrow> 'r \<Rightarrow> ('r \<times> 'a list) list
     \<Rightarrow> (('r \<times> 'a list) list, ('e, 'a, 'r) agent) res" where
  "beam_select beam_size ag node total_reward next_beam =
     (case at_path (mcts_head ag) node of
        None \<Rightarrow> Raise KeyError ag
      | Some nd \<Rightarrow>
          if min beam_size (int (length (children nd))) \<le> int (count_beam_children nd)
          then Ret next_beam ag
          else
            (case push_children nd node total_reward (select_beam_search beam_size nd) next_beam of
               Inl e \<Rightarrow> Raise e ag
             | Inr next_beam' \<Rightarrow>
                 Ret next_beam' (ag\<lparr>mcts_head := modify_at mark_in_beam node (mcts_head ag)\<rparr>)))"

definition beam_node ::
  "('e, 's, 'a::linorder, 'r::{zero,plus,linorder}, 'i, 'p) collab \<Rightarrow> 's \<Rightarrow> int \<Rightarrow> ('e, 'a, 'r) agent
     \<Rightarrow> 'a list \<Rightarrow> ('r \<times> 'a list) list \<Rightarrow> (('r \<times> 'a list) list, ('e, 'a, 'r) agent) res" where
  "beam_node P state beam_size ag node next_beam =
     (case parse_path P ag state node of
        Raise e ag1 \<Rightarrow> Raise e ag1
      | Ret (this_state, total_reward, fin) ag1 \<Rightarrow>
          if fin then
            beam_select beam_size
              (backup (mark_terminal ag1 node fin) node (episode_reward ag1 + total_reward))
              node total_reward next_beam
          else
            (case expand_if_needed P (mark_terminal ag1 node fin) this_state node of
               Raise e ag3 \<Rightarrow> Raise e ag3
             | Ret u ag3 \<Rightarrow> beam_select beam_size ag3 node total_reward next_beam))"

text \<open>One round: the loop over the frontier.\<close>

fun beam_round ::
  "('e, 's, 'a::linorder, 'r::{zero,plus,linorder}, 'i, 'p) collab \<Rightarrow> 's \<Rightarrow> int \<Rightarrow> ('e, 'a, 'r) agent
     \<Rightarrow> ('r \<times> 'a list) list \<Rightarrow> ('r \<times> 'a list) list
     \<Rightarrow> (('r \<times> 'a list) list, ('e, 'a, 'r) agent) res" where
  "beam_round P state beam_size ag [] next_beam = Ret next_beam ag"
| "beam_round P state beam_size ag ((r, node) # beam) next_beam =
     (case beam_node P state beam_size ag node next_beam of
        Raise e ag1 \<Rightarrow> Raise e ag1
      | Ret next_beam' ag1 \<Rightarrow> beam_round P state beam_size ag1 beam next_beam')"

text \<open>The loop \<open>while beam or next_beam\<close>, with a fuel as for the greedy loop. The source
  returns nothing; the value here is the list of the frontiers of the successive rounds
  (the nodes the source logs as analysed), oldest first.\<close>

fun beam_loop ::
  "nat \<Rightarrow> ('e, 's, 'a::linorder, 'r::{zero,plus,linorder}, 'i, 'p) collab \<Rightarrow> 's \<Rightarrow> int
     \<Rightarrow> ('e, 'a, 'r) agent \<Rightarrow> ('r \<times> 'a list) list \<Rightarrow> ('r \<times> 'a list) list \<Rightarrow> ('r \<times> 'a list) list list
     \<Rightarrow> (('r \<times> 'a list) list list, ('e, 'a, 'r) agent) res option" where
  "beam_loop 0 P state beam_size ag beam next_beam rounds = None"
| "beam_loop (Suc fuel) P state beam_size ag beam next_beam rounds =
     (if beam = [] \<and> next_beam = [] then Some (Ret rounds ag)
      else
        (case beam_round P state beam_size ag beam next_beam of
           Raise e ag1 \<Rightarrow> Some (Raise e ag1)
         | Ret next_beam' ag1 \<Rightarrow>
             beam_loop fuel P state beam_size ag1
               (py_take beam_size (sorted_desc fst next_beam')) [] (rounds @ [beam])))"

definition beam_search ::
  "nat \<Rightarrow> ('e, 's, 'a::linorder, 'r::{zero,plus,linorder}, 'i, 'p) collab \<Rightarrow> ('e, 'a, 'r) agent \<Rightarrow> 's
     \<Rightarrow> int \<Rightarrow> (('r \<times> 'a list) list list, ('e, 'a, 'r) agent) res option" where
  "beam_search fuel P ag state beam_size =
     beam_loop fuel P state beam_size ag [(episode_reward ag, [])] [] []"

section \<open>Decisions and configuration\<close>

text \<open>\<open>BaseMCTSAgent._predict\<close>, and \<open>MCBSAgent._predict\<close>: greedy, beam search, then the
  tree search. \<open>max_steps\<close> has its default.\<close>

definition predict ::
  "('e, 's, 'a::linorder, 'r::{zero,plus,linorder}, 'i, 'p) collab \<Rightarrow> ('e, 'a, 'r) agent \<Rightarrow> 's
     \<Rightarrow> ('a \<times> 'p policy_out, ('e, 'a, 'r) agent) res" where
  "predict P ag state = mcts P ag state 1000"

definition mcbs_predict ::
  "nat \<Rightarrow> ('e, 's, 'a::linorder, 'r::{zero,plus,linorder}, 'i, 'p) collab \<Rightarrow> ('e, 'a, 'r) agent \<Rightarrow> 's
     \<Rightarrow> ('a \<times> 'p policy_out, ('e, 'a, 'r) agent) res option" where
  "mcbs_predict fuel P ag state =
     (case greedy fuel P ag state of
        None \<Rightarrow> None
      | Some (Raise e ag1) \<Rightarrow> Some (Raise e ag1)
      | Some (Ret p ag1) \<Rightarrow>
          (case beam_search fuel P ag1 state (self_beam_size ag1) of
             None \<Rightarrow> None
           | Some (Raise e ag2) \<Rightarrow> Some (Raise e ag2)
           | Some (Ret rounds ag2) \<Rightarrow> Some (mcts P ag2 state 1000)))"

text \<open>The keyword arguments of the constructors, with the defaults of the source left to
  the caller.\<close>

record 'r config =
  cfg_n_mc_target :: int
  cfg_n_mc_min :: int
  cfg_n_mc_max :: int
  cfg_mcts_mode :: string
  cfg_c_puct :: 'r
  cfg_reward_range :: "'r \<times> 'r"
  cfg_log_likelihood_feature :: bool
  cfg_beam_size :: int

text \<open>\<open>__init__\<close> of the agents, after the base class has stored the environment: the
  parameters are stored as given, the copy is made, the episode is initialised with a
  fresh root. The result is a sum so that a raise would be \<open>Inl\<close>; the source has none.\<close>

definition init_agent ::
  "('e, 's, 'a, 'r::zero, 'i, 'p) collab \<Rightarrow> agent_class \<Rightarrow> 'e \<Rightarrow> 'r config
     \<Rightarrow> error + ('e, 'a, 'r) agent" where
  "init_agent P cls the_env cfg =
     Inr \<lparr>agent_class = cls, env = the_env, sim_env = disable_reset P the_env,
          mcts_head = new_node (fst (cfg_reward_range cfg)) 0, episode_reward = 0,
          n_mc_target = cfg_n_mc_target cfg, n_mc_min = cfg_n_mc_min cfg,
          n_mc_max = cfg_n_mc_max cfg, mcts_mode = cfg_mcts_mode cfg, c_puct = cfg_c_puct cfg,
          reward_range = cfg_reward_range cfg,
          log_likelihood_feature = cfg_log_likelihood_feature cfg,
          self_beam_size = cfg_beam_size cfg\<rparr>"

text \<open>\<open>set_precision(n_mc_target, n_mc_min, n_mc_max, mcts_mode, c_puct)\<close>.\<close>

definition set_precision ::
  "('e, 'a, 'r) agent \<Rightarrow> int \<Rightarrow> int \<Rightarrow> int \<Rightarrow> string \<Rightarrow> 'r \<Rightarrow> error + ('e, 'a, 'r) agent" where
  "set_precision ag target lo hi mode c =
     Inr (ag\<lparr>n_mc_target := target, n_mc_min := lo, n_mc_max := hi, mcts_mode := mode,
             c_puct := c\<rparr>)"

section \<open>Path replay as the specification words it\<close>

text \<open>The specification of the replayer: resynchronise the copy only when it has diverged,
  apply each action in order, sum the rewards, stop early on termination. It is written
  here without the loop of the source: \<open>applied_actions\<close> is the part of the path that
  is applied, up to and including the first action whose step reports done (or raises);
  \<open>step_all\<close> applies every action of a list in order and collects what the steps
  return.\<close>

fun applied_actions :: "('e, 's, 'a, 'r, 'i, 'p) collab \<Rightarrow> 'e \<Rightarrow> 'a list \<Rightarrow> 'a list" where
  "applied_actions P sim [] = []"
| "applied_actions P sim (action # path) =
     action #
       (case env_step P sim action of
          Raise e sim' \<Rightarrow> []
        | Ret (state', reward, done) sim' \<Rightarrow> if done then [] else applied_actions P sim' path)"

fun step_all ::
  "('e, 's, 'a, 'r, 'i, 'p) collab \<Rightarrow> 'e \<Rightarrow> 'a list \<Rightarrow> (('s \<times> 'r \<times> bool) list, 'e) res" where
  "step_all P sim [] = Ret [] sim"
| "step_all P sim (action # actions) =
     (case env_step P sim action of
        Raise e sim' \<Rightarrow> Raise e sim'
      | Ret out sim' \<Rightarrow>
          (case step_all P sim' actions of
             Raise e sim'' \<Rightarrow> Raise e sim''
           | Ret outs sim'' \<Rightarrow> Ret (out # outs) sim''))"

definition replay_spec ::
  "('e, 's, 'a, 'r::{zero,plus}, 'i, 'p) collab \<Rightarrow> ('e, 'a, 'r) agent \<Rightarrow> 's \<Rightarrow> 'a list
     \<Rightarrow> ('s \<times> 'r \<times> bool, ('e, 'a, 'r) agent) res" where
  "replay_spec P ag state path =
     (let sim1 = set_verbose P (sim_env ag) False
      in case step_all P sim1 (applied_actions P sim1 path) of
           Raise e sim' \<Rightarrow> Raise e (ag\<lparr>sim_env := sim'\<rparr>)
         | Ret outs sim' \<Rightarrow>
             Ret (tensorize P (if outs = [] then state else fst (last outs)),
                  foldl (+) 0 (map (\<lambda>(s, r, d). r) outs),
                  list_ex (\<lambda>(s, r, d). d) outs)
               (ag\<lparr>sim_env := sim'\<rparr>))"

definition parse_path_spec ::
  "('e, 's, 'a, 'r::{zero,plus}, 'i, 'p) collab \<Rightarrow> ('e, 'a, 'r) agent \<Rightarrow> 's \<Rightarrow> 'a list
     \<Rightarrow> ('s \<times> 'r \<times> bool, ('e, 'a, 'r) agent) res" where
  "parse_path_spec P ag state path =
     (case env_state P (sim_env ag) of
        None \<Rightarrow> replay_spec P (resync P ag) state path
      | Some s \<Rightarrow>
          (case isclose P s (env_state P (env ag)) of
             Inl e \<Rightarrow> Raise e ag
           | Inr close \<Rightarrow> replay_spec P (if close then ag else resync P ag) state path))"

section \<open>The dictionary invariant of the tree\<close>

text \<open>The children of a node are a Python dictionary: no action occurs twice among the keys.
  On association lists this is an invariant of the tree, at every node.\<close>

fun wf_tree :: "('a, 'r) node \<Rightarrow> bool" where
  "wf_tree (MCTSNode k s m st t b cs) =
     (distinct (map fst cs) \<and> (\<forall>c \<in> snd ` set cs. wf_tree c))"


section \<open>What a traversal may change\<close>

text \<open>Two agents have the same configuration when they differ at most in the private copy
  and in the tree; \<open>sim_only\<close> allows a difference in the copy alone.\<close>

definition same_config :: "('e, 'a, 'r) agent \<Rightarrow> ('e, 'a, 'r) agent \<Rightarrow> bool" where
  "same_config ag ag' = (ag'\<lparr>sim_env := sim_env ag, mcts_head := mcts_head ag\<rparr> = ag)"

definition sim_only :: "('e, 'a, 'r) agent \<Rightarrow> ('e, 'a, 'r) agent \<Rightarrow> bool" where
  "sim_only ag ag' = (ag'\<lparr>sim_env := sim_env ag\<rparr> = ag)"

text \<open>\<open>evolves k ag ag'\<close>: \<open>ag'\<close> comes from \<open>ag\<close> by changes of the private copy, by
  \<open>set_terminal\<close> (never with \<open>True\<close> at the root), \<open>expand\<close> and the beam tag on nodes
  of the tree, and by exactly \<open>k\<close> backups.\<close>

inductive evolves :: "nat \<Rightarrow> ('e, 'a, 'r::{zero,plus,linorder}) agent \<Rightarrow> ('e, 'a, 'r) agent \<Rightarrow> bool" where
  evolves_refl: "evolves 0 ag ag"
| evolves_sim: "evolves k ag ag1 \<Longrightarrow> sim_only ag1 ag2 \<Longrightarrow> evolves k ag ag2"
| evolves_terminal:
    "evolves k ag ag1 \<Longrightarrow> (node = [] \<longrightarrow> \<not> t)
       \<Longrightarrow> evolves k ag (ag1\<lparr>mcts_head := modify_at (set_terminal t) node (mcts_head ag1)\<rparr>)"
| evolves_expand:
    "evolves k ag ag1
       \<Longrightarrow> evolves k ag (ag1\<lparr>mcts_head := modify_at (expand m acts rs) node (mcts_head ag1)\<rparr>)"
| evolves_mark:
    "evolves k ag ag1
       \<Longrightarrow> evolves k ag (ag1\<lparr>mcts_head := modify_at mark_in_beam node (mcts_head ag1)\<rparr>)"
| evolves_reward:
    "evolves k ag ag1
       \<Longrightarrow> evolves (Suc k) ag (ag1\<lparr>mcts_head := give_reward r node (mcts_head ag1)\<rparr>)"


section \<open>A small environment for the concrete cases\<close>

text \<open>An environment with \<open>e\<close> particles left: an action \<open>a\<close> with \<open>a + 1 < e\<close> merges
  two of them for the reward \<open>- a - 1\<close>, and the episode is done when one particle is
  left. The policy network gives every row the weight 1 and, as \<open>torch.cat\<close> does, fails
  on an empty batch; the PUCT choice is the first child.\<close>

definition toy :: "(nat, nat, nat, int, nat, int) collab" where
  "toy = \<lparr>env_state = (\<lambda>e. Some e), disable_reset = (\<lambda>e. e),
          get_internal_state = (\<lambda>e. e), set_internal_state = (\<lambda>e i. i),
          set_verbose = (\<lambda>e b. e),
          env_step = (\<lambda>e a. if Suc a < e then Ret (e - 1, - int a - 1, e \<le> 2) (e - 1)
                             else Raise EnvError e),
          compute_log_likelihood = (\<lambda>e a. Inr (- int a - 1)),
          unwrap_action = (\<lambda>e a. Inr a), is_pair = (\<lambda>a. False),
          isclose = (\<lambda>s t. case t of None \<Rightarrow> Inl TypeError | Some u \<Rightarrow> Inr (s = u)),
          tensorize = (\<lambda>s. s), find_legal_actions = (\<lambda>s. [0..<s - 1]),
          actor_probs = (\<lambda>rows. if rows = [] then Inl RuntimeError else Inr (map (\<lambda>r. 1) rows)),
          select_puct = (\<lambda>nd out mode c. case children nd of [] \<Rightarrow> Inl ValueError | (a, ch) # cs \<Rightarrow> Inr a),
          torch_log = (\<lambda>p. p), uniform_prob = (\<lambda>k. 1)\<rparr>"

definition toy_agent :: "agent_class \<Rightarrow> nat \<Rightarrow> (nat, nat, int) agent" where
  "toy_agent cls e =
     \<lparr>agent_class = cls, env = e, sim_env = e, mcts_head = new_node (- 200) 0,
      episode_reward = 0, n_mc_target = 5, n_mc_min = 5, n_mc_max = 100,
      mcts_mode = ''mean'', c_puct = 1, reward_range = (- 200, 0),
      log_likelihood_feature = True, self_beam_size = 10\<rparr>"

text \<open>The same agent with the root already expanded into the given children.\<close>

definition toy_expanded ::
  "agent_class \<Rightarrow> nat \<Rightarrow> (nat \<times> (nat, int) node) list \<Rightarrow> (nat, nat, int) agent" where
  "toy_expanded cls e cs =
     (toy_agent cls e)\<lparr>mcts_head := MCTSNode 0 0 (- 200) 0 False False cs\<rparr>"

text \<open>Roots that are already expanded, and a configuration that the specification calls
  invalid: a minimum above the maximum, a negative maximum, an aggregation mode that is
  neither \<open>mean\<close> nor \<open>max\<close>, a negative exploration constant, a beam of width 0.\<close>

definition two_leaves :: "(nat \<times> (nat, int) node) list" where
  "two_leaves = [(0, new_node (- 200) (- 1)), (1, new_node (- 200) (- 2))]"

definition one_leaf :: "(nat \<times> (nat, int) node) list" where
  "one_leaf = [(0, new_node (- 200) (- 1))]"

definition bad_config :: "int config" where
  "bad_config =
     \<lparr>cfg_n_mc_target = 5, cfg_n_mc_min = 10, cfg_n_mc_max = - 3, cfg_mcts_mode = ''median'',
      cfg_c_puct = - 1, cfg_reward_range = (- 200, 0), cfg_log_likelihood_feature = True,
      cfg_beam_size = 0\<rparr>"

section \<open>Path replay: the loop against the specification\<close>

lemma follow_path_spec:
  "follow_path P sim state tot path =
     (case step_all P sim (applied_actions P sim path) of
        Raise e s \<Rightarrow> Raise e s
      | Ret outs s \<Rightarrow>
          Ret (if outs = [] then state else fst (last outs),
               foldl (+) tot (map (\<lambda>(s, r, d). r) outs),
               list_ex (\<lambda>(s, r, d). d) outs) s)"
proof (induction path arbitrary: sim state tot)
  case Nil
  show ?case by simp
next
  case (Cons a path)
  show ?case
  proof (cases "env_step P sim a")
    case (Raise e sim')
    then show ?thesis by simp
  next
    case (Ret out sim')
    obtain s' r d where out: "out = (s', r, d)" by (cases out) auto
    show ?thesis
    proof (cases d)
      case True
      with Ret out show ?thesis by simp
    next
      case False
      with Ret out Cons.IH [of sim' s' "tot + r"] show ?thesis
        by (simp split: res.splits)
    qed
  qed
qed

lemma applied_actions_prefix:
  "take (length (applied_actions P sim path)) path = applied_actions P sim path"
  by (induction path arbitrary: sim) (auto split: res.splits)

text \<open>
  Claim C3. Path replay resynchronises the private copy from the real environment only
  when the copy's state is unset or not approximately equal to the real environment's
  state, then applies the actions of the path in order with the copy's step function, and
  returns the resulting state, the sum of the rewards of the steps and a terminal flag; it
  applies no further action once a step reports done. The function of the source is equal
  to the specification's replayer on every agent, state and path.
\<close>

theorem parse_path_refines:
  "parse_path P ag state path = parse_path_spec P ag state path"
  by (simp add: parse_path_def parse_path_spec_def replay_spec_def needs_resync_def
      follow_path_spec Let_def split: option.splits sum.splits res.splits)

text \<open>A path of three actions on the small environment with three particles: the second
  step reports done, the third action is not applied, the rewards \<open>-2\<close> and \<open>-1\<close> add up
  to \<open>-3\<close>.\<close>

theorem parse_path_refines_witness:
  "parse_path toy (toy_agent MCTSAgent 3) 3 [1, 0, 0] = Ret (1, - 3, True) ((toy_agent MCTSAgent 3)\<lparr>sim_env := 1\<rparr>)
   \<and> applied_actions toy 3 [1, 0, 0] = [1, 0]
   \<and> step_all toy 3 [1, 0] = Ret [(2, - 2, False), (1, - 1, True)] 1"
proof -
  have "parse_path_spec toy (toy_agent MCTSAgent 3) 3 [1, 0, 0]
      = Ret (1, - 3, True) ((toy_agent MCTSAgent 3)\<lparr>sim_env := 1\<rparr>)"
    "applied_actions toy 3 [1, 0, 0] = [1, 0]"
    "step_all toy 3 [1, 0] = Ret [(2, - 2, False), (1, - 1, True)] 1"
    by code_simp+
  with parse_path_refines [of toy "toy_agent MCTSAgent 3" 3 "[1, 0, 0]"] show ?thesis by simp
qed

section \<open>Frame lemmas\<close>

lemma sim_only_refl: "sim_only ag ag"
  by (simp add: sim_only_def)

lemma sim_only_trans: "sim_only a b \<Longrightarrow> sim_only b c \<Longrightarrow> sim_only a c"
  by (cases a, cases b, cases c) (simp add: sim_only_def)

lemma sim_only_update: "sim_only ag (ag\<lparr>sim_env := x\<rparr>)"
  by (simp add: sim_only_def)

lemma sim_only_fields:
  "sim_only ag ag' \<Longrightarrow>
     env ag' = env ag \<and> mcts_head ag' = mcts_head ag \<and> episode_reward ag' = episode_reward ag
     \<and> agent_class ag' = agent_class ag \<and> reward_range ag' = reward_range ag
     \<and> log_likelihood_feature ag' = log_likelihood_feature ag
     \<and> mcts_mode ag' = mcts_mode ag \<and> c_puct ag' = c_puct ag"
  by (cases ag, cases ag') (simp add: sim_only_def)

lemma same_config_refl: "same_config ag ag"
  by (simp add: same_config_def)

lemma same_config_trans: "same_config a b \<Longrightarrow> same_config b c \<Longrightarrow> same_config a c"
  by (cases a, cases b, cases c) (simp add: same_config_def)

lemma sim_only_same_config: "sim_only a b \<Longrightarrow> same_config a b"
  by (cases a, cases b) (simp add: same_config_def sim_only_def)

lemma same_config_head: "same_config ag (ag\<lparr>mcts_head := x\<rparr>)"
  by (simp add: same_config_def)

lemma same_config_fields:
  "same_config ag ag' \<Longrightarrow>
     env ag' = env ag \<and> episode_reward ag' = episode_reward ag
     \<and> agent_class ag' = agent_class ag \<and> reward_range ag' = reward_range ag
     \<and> n_mc_target ag' = n_mc_target ag \<and> n_mc_min ag' = n_mc_min ag \<and> n_mc_max ag' = n_mc_max ag"
  by (cases ag, cases ag') (simp add: same_config_def)

lemma parse_path_sim_only: "sim_only ag (final_state (parse_path P ag state path))"
  by (cases ag) (simp add: parse_path_def sim_only_def resync_def Let_def
      split: sum.splits res.splits prod.splits)

lemma parse_action_sim_sim_only: "sim_only ag (final_state (parse_action_sim P ag a))"
  by (cases ag) (simp add: parse_action_sim_def sim_only_def Let_def split: sum.splits)

lemma parse_action_real_sim_only: "sim_only ag (final_state (parse_action_real P ag a))"
  by (cases ag) (simp add: parse_action_real_def parse_action_sim_def sim_only_def resync_def Let_def split: sum.splits)

lemma step_rewards_of_sim_only: "sim_only ag (final_state (step_rewards_of P ag actions))"
proof (induction actions arbitrary: ag)
  case Nil
  show ?case by (simp add: sim_only_refl)
next
  case (Cons a actions)
  have 1: "sim_only ag (final_state (parse_action_sim P ag a))"
    by (rule parse_action_sim_sim_only)
  show ?case
  proof (cases "parse_action_sim P ag a")
    case (Raise e ag1)
    with 1 show ?thesis by simp
  next
    case (Ret ll ag1)
    with 1 have a1: "sim_only ag ag1" by simp
    from Cons.IH [of ag1] have "sim_only ag1 (final_state (step_rewards_of P ag1 actions))" .
    with a1 have "sim_only ag (final_state (step_rewards_of P ag1 actions))"
      by (rule sim_only_trans)
    with Ret show ?thesis by (cases "step_rewards_of P ag1 actions") simp_all
  qed
qed


lemma batch_rows_sim_only: "sim_only ag (final_state (batch_rows P ag state pairs))"
proof (induction pairs arbitrary: ag)
  case Nil
  show ?case by (simp add: sim_only_refl)
next
  case (Cons pr pairs)
  obtain a llo where pr: "pr = (a, llo)" by (cases pr) auto
  show ?case
  proof (cases "log_likelihood_feature ag")
    case False
    with pr Cons.IH [of ag] show ?thesis
      by (cases "batch_rows P ag state pairs") simp_all
  next
    case True
    define r where "r = (case llo of None \<Rightarrow> parse_action_real P ag a | Some ll \<Rightarrow> Ret ll ag)"
    have 1: "sim_only ag (final_state r)"
      unfolding r_def by (cases llo) (simp_all add: sim_only_refl parse_action_real_sim_only)
    show ?thesis
    proof (cases r)
      case (Raise e ag1)
      with 1 True pr show ?thesis by (simp add: r_def)
    next
      case (Ret ll ag1)
      with 1 have a1: "sim_only ag ag1" by simp
      from sim_only_trans [OF a1 Cons.IH [of ag1]]
      have "sim_only ag (final_state (batch_rows P ag1 state pairs))" .
      with Ret True pr show ?thesis
        by (cases "batch_rows P ag1 state pairs") (simp_all add: r_def)
    qed
  qed
qed

lemma evaluate_policy_sim_only:
  "sim_only ag (final_state (evaluate_policy P ag state acts rs act))"
proof -
  have r: "sim_only ag (final_state (evaluate_policy_random P ag state acts rs act))"
    by (simp add: evaluate_policy_random_def sim_only_refl)
  have b: "sim_only ag (final_state (batch_state P ag state acts rs))"
    by (simp add: batch_state_def batch_rows_sim_only)
  have a: "sim_only ag (final_state (evaluate_policy_actor P ag state acts rs act))"
    using b by (cases "batch_state P ag state acts rs")
      (simp_all add: evaluate_policy_actor_def split: sum.splits option.splits)
  show ?thesis
    using r a by (cases "agent_class ag") (simp_all add: evaluate_policy_def sim_only_refl)
qed


lemma evolves_trans: "evolves k b c \<Longrightarrow> evolves j a b \<Longrightarrow> evolves (j + k) a c"
proof (induction rule: evolves.induct)
  case (evolves_refl ag)
  then show ?case by simp
next
  case (evolves_sim k ag ag1 ag2)
  then show ?case by (blast intro: evolves.evolves_sim)
next
  case (evolves_terminal k ag ag1 node t)
  then show ?case by (blast intro: evolves.evolves_terminal)
next
  case (evolves_expand k ag ag1 m acts rs node)
  then show ?case by (blast intro: evolves.evolves_expand)
next
  case (evolves_mark k ag ag1 node)
  then show ?case by (blast intro: evolves.evolves_mark)
next
  case (evolves_reward k ag ag1 r node)
  from evolves_reward.IH [OF evolves_reward.prems]
  have "evolves (Suc (j + k)) a (ag1\<lparr>mcts_head := give_reward r node (mcts_head ag1)\<rparr>)"
    by (rule evolves.evolves_reward)
  then show ?case by simp
qed

lemma evolves_same_config: "evolves k a b \<Longrightarrow> same_config a b"
proof (induction rule: evolves.induct)
  case (evolves_sim k ag ag1 ag2)
  then show ?case by (blast intro: same_config_trans sim_only_same_config)
qed (blast intro: same_config_refl same_config_trans same_config_head)+

lemma node_n_modify_at:
  "(\<And>x. node_n (f x) = node_n x) \<Longrightarrow> node_n (modify_at f p t) = node_n t"
  by (cases p; cases t) simp_all

lemma terminal_modify_at:
  "terminal (modify_at f p t) = (if p = [] then terminal (f t) else terminal t)"
  by (cases p; cases t) simp_all

lemma node_n_give_reward: "node_n (give_reward r p t) = Suc (node_n t)"
  by (cases p; cases t) (simp_all add: give_reward1_def)

lemma terminal_give_reward: "terminal (give_reward r p t) = terminal t"
  by (cases p; cases t) (simp_all add: give_reward1_def)

lemma evolves_visits: "evolves k a b \<Longrightarrow> node_n (mcts_head b) = node_n (mcts_head a) + k"
proof (induction rule: evolves.induct)
  case (evolves_sim k ag ag1 ag2)
  then show ?case using sim_only_fields [of ag1 ag2] by simp
qed (simp_all add: node_n_modify_at node_n_give_reward set_terminal_def expand_def mark_in_beam_def)

lemma evolves_root_nonterminal:
  "evolves k a b \<Longrightarrow> \<not> terminal (mcts_head a) \<Longrightarrow> \<not> terminal (mcts_head b)"
proof (induction rule: evolves.induct)
  case (evolves_sim k ag ag1 ag2)
  then show ?case using sim_only_fields [of ag1 ag2] by simp
qed (simp_all add: terminal_modify_at terminal_give_reward set_terminal_def expand_def mark_in_beam_def)

lemma evolves_sim_only: "sim_only a b \<Longrightarrow> evolves 0 a b"
  by (blast intro: evolves.intros)

lemma expand_node_evolves: "evolves 0 ag (final_state (expand_node P ag s node))"
proof -
  have 1: "sim_only ag (final_state (step_rewards_of P ag (find_legal_actions P s)))"
    by (rule step_rewards_of_sim_only)
  show ?thesis
  proof (cases "step_rewards_of P ag (find_legal_actions P s)")
    case (Raise e ag1)
    with 1 show ?thesis by (simp add: expand_node_def evolves_sim_only)
  next
    case (Ret rs ag1)
    with 1 have "evolves 0 ag ag1" by (simp add: evolves_sim_only)
    then have "evolves 0 ag (ag1\<lparr>mcts_head := modify_at
        (expand (fst (reward_range ag1)) (find_legal_actions P s) rs) node (mcts_head ag1)\<rparr>)"
      by (rule evolves.evolves_expand)
    with Ret show ?thesis by (simp add: expand_node_def)
  qed
qed


lemma parse_path_Nil:
  "parse_path P ag state [] =
     (case needs_resync P ag of
        Inl e \<Rightarrow> Raise e ag
      | Inr b \<Rightarrow>
          Ret (tensorize P state, 0, False)
            ((if b then resync P ag else ag)
               \<lparr>sim_env := set_verbose P (sim_env (if b then resync P ag else ag)) False\<rparr>))"
  by (simp add: parse_path_def Let_def split: sum.splits)

lemma parse_path_Nil_Ret:
  "parse_path P ag state [] = Ret (s, tot, term) ag1 \<Longrightarrow> \<not> term \<and> tot = 0 \<and> s = tensorize P state"
  by (auto simp: parse_path_Nil split: sum.splits)

lemma parse_path_evolves: "evolves 0 ag (final_state (parse_path P ag state path))"
  by (simp add: evolves_sim_only parse_path_sim_only)

lemma evaluate_policy_evolves:
  "evolves 0 ag (final_state (evaluate_policy P ag state acts rs act))"
  by (simp add: evolves_sim_only evaluate_policy_sim_only)

lemma evolves_step: "evolves 0 a b \<Longrightarrow> evolves k b c \<Longrightarrow> evolves k a c"
  using evolves_trans [of k b c 0 a] by simp


lemma mark_terminal_evolves:
  "(node = [] \<longrightarrow> \<not> t) \<Longrightarrow> evolves 0 ag (mark_terminal ag node t)"
  unfolding mark_terminal_def by (rule evolves_terminal [OF evolves_refl])

lemma backup_evolves: "evolves (Suc 0) ag (backup ag node r)"
  unfolding backup_def by (rule evolves_reward [OF evolves_refl])

lemma expand_if_needed_evolves:
  "evolves 0 ag (final_state (expand_if_needed P ag s node))"
  by (simp add: expand_if_needed_def expand_node_evolves evolves_refl split: option.splits)

lemma select_child_evolves:
  "evolves 0 ag (final_state (select_child P ag s node))"
proof (cases "at_path (mcts_head ag) node")
  case None
  then show ?thesis by (simp add: select_child_def evolves_refl)
next
  case (Some nd)
  have e: "evolves 0 ag (final_state (evaluate_policy P ag s (children_keys nd)
                                  (Some (children_q_steps nd)) None))"
    by (rule evaluate_policy_evolves)
  show ?thesis
  proof (cases "evaluate_policy P ag s (children_keys nd) (Some (children_q_steps nd)) None")
    case (Raise e' ag1)
    with e Some show ?thesis by (simp add: select_child_def)
  next
    case (Ret pp ag1)
    with e Some show ?thesis
      by (simp add: select_child_def split: sum.splits option.splits)
  qed
qed

lemma mcts_descend_evolves:
  "evolves 0 ag (final_state (mcts_descend P state k ag node tot))"
proof (induction k arbitrary: ag node tot)
  case 0
  show ?case by (simp add: evolves_refl)
next
  case (Suc k)
  have p: "evolves 0 ag (final_state (parse_path P ag state node))"
    by (rule parse_path_evolves)
  show ?case
  proof (cases "parse_path P ag state node")
    case (Raise e ag1)
    with p show ?thesis by simp
  next
    case (Ret out ag1)
    obtain this_state tot' fin where out: "out = (this_state, tot', fin)"
      by (cases out) auto
    from p Ret have e1: "evolves 0 ag ag1" by simp
    have nt: "node = [] \<longrightarrow> \<not> fin"
      using Ret out parse_path_Nil_Ret by fastforce
    have e2: "evolves 0 ag (mark_terminal ag1 node fin)"
      by (rule evolves_step [OF e1 mark_terminal_evolves [OF nt]])
    show ?thesis
    proof (cases fin)
      case True
      with Ret out e2 show ?thesis by simp
    next
      case False
      have e3: "evolves 0 ag (final_state (expand_if_needed P (mark_terminal ag1 node fin) this_state node))"
        by (rule evolves_step [OF e2 expand_if_needed_evolves])
      show ?thesis
      proof (cases "expand_if_needed P (mark_terminal ag1 node fin) this_state node")
        case (Raise e ag3)
        with e3 Ret out False show ?thesis by simp
      next
        case r3: (Ret u ag3)
        with e3 have e3': "evolves 0 ag ag3" by simp
        have e4: "evolves 0 ag (final_state (select_child P ag3 this_state node))"
          by (rule evolves_step [OF e3' select_child_evolves])
        show ?thesis
        proof (cases "select_child P ag3 this_state node")
          case (Raise e ag4)
          with e4 r3 Ret out False show ?thesis by simp
        next
          case r4: (Ret action ag4)
          with e4 have e4': "evolves 0 ag ag4" by simp
          from evolves_step [OF e4' Suc.IH]
          have "evolves 0 ag (final_state (mcts_descend P state k ag4 (node @ [action]) tot'))" .
          with r4 r3 Ret out False show ?thesis by simp
        qed
      qed
    qed
  qed
qed

lemma mcts_pass_evolves:
  "evolves (if returns (mcts_pass P state max_steps ag) then 1 else 0) ag
     (final_state (mcts_pass P state max_steps ag))"
proof -
  have d: "evolves 0 ag (final_state (mcts_descend P state (nat max_steps) ag [] 0))"
    by (rule mcts_descend_evolves)
  show ?thesis
  proof (cases "mcts_descend P state (nat max_steps) ag [] 0")
    case (Raise e ag1)
    with d show ?thesis by (simp add: mcts_pass_def)
  next
    case (Ret out ag1)
    obtain node tot where out: "out = (node, tot)" by (cases out) auto
    from d Ret have "evolves 0 ag ag1" by simp
    from evolves_trans [OF backup_evolves this]
    have "evolves 1 ag (backup ag1 node (episode_reward ag1 + tot))" by simp
    with Ret out show ?thesis by (simp add: mcts_pass_def)
  qed
qed

lemma mcts_passes_evolves:
  "\<exists>j. evolves j ag (final_state (mcts_passes P state max_steps k ag))
     \<and> (returns (mcts_passes P state max_steps k ag) \<longrightarrow> j = k)"
proof (induction k arbitrary: ag)
  case 0
  show ?case by (auto intro: evolves_refl)
next
  case (Suc k)
  note p = mcts_pass_evolves [of P state max_steps ag]
  show ?case
  proof (cases "mcts_pass P state max_steps ag")
    case (Raise e ag1)
    with p show ?thesis by auto
  next
    case (Ret u ag1)
    with p have e1: "evolves 1 ag ag1" by simp
    from Suc.IH [of ag1] obtain j where
      j: "evolves j ag1 (final_state (mcts_passes P state max_steps k ag1))"
         "returns (mcts_passes P state max_steps k ag1) \<longrightarrow> j = k" by blast
    from evolves_trans [OF j(1) e1]
    have "evolves (Suc j) ag (final_state (mcts_passes P state max_steps k ag1))" by simp
    with j(2) Ret show ?thesis by auto
  qed
qed

lemma mcts_evolves:
  "\<exists>j. evolves j ag (final_state (mcts P ag state max_steps))
     \<and> (returns (mcts P ag state max_steps) \<longrightarrow> j = nat (mcts_budget P ag state))"
proof -
  define n where "n = nat (mcts_budget P ag state)"
  from mcts_passes_evolves [of ag P state max_steps n] obtain j where
    j: "evolves j ag (final_state (mcts_passes P state max_steps n ag))"
       "returns (mcts_passes P state max_steps n ag) \<longrightarrow> j = n" by blast
  show ?thesis
  proof (cases "mcts_passes P state max_steps n ag")
    case (Raise e ag1)
    with j show ?thesis by (auto simp: mcts_def n_def)
  next
    case (Ret u ag1)
    with j have e1: "evolves n ag ag1" by simp
    note ev = evolves_trans [OF evaluate_policy_evolves e1]
    show ?thesis
    proof (cases "select_best_max (mcts_head ag1)")
      case (Inl e)
      with Ret e1 show ?thesis by (auto simp: mcts_def n_def)
    next
      case (Inr action)
      from ev [of P state "find_legal_actions P state"
          "Some (children_q_steps (mcts_head ag1))" "Some action"]
      have e2: "evolves n ag (final_state (evaluate_policy P ag1 state (find_legal_actions P state)
                          (Some (children_q_steps (mcts_head ag1))) (Some action)))" by simp
      show ?thesis
      proof (cases "evaluate_policy P ag1 state (find_legal_actions P state)
                          (Some (children_q_steps (mcts_head ag1))) (Some action)")
        case (Raise e ag2)
        with e2 Ret Inr show ?thesis by (auto simp: mcts_def n_def)
      next
        case r2: (Ret out ag2)
        with e2 Ret Inr show ?thesis
          by (cases "log_of P out") (auto simp: mcts_def n_def)
      qed
    qed
  qed
qed


lemma reaches_trans:
  "evolves j a b \<Longrightarrow> \<exists>k. evolves k b c \<Longrightarrow> \<exists>m. evolves m a c"
  by (blast intro: evolves_trans)

lemma reaches_refl: "\<exists>j. evolves j ag ag"
  by (rule exI [of _ 0]) (rule evolves_refl)

lemma greedy_loop_evolves:
  "greedy_loop fuel P state ag node = Some r \<Longrightarrow> \<exists>j. evolves j ag (final_state r)"
proof (induction fuel arbitrary: ag node)
  case 0
  then show ?case by simp
next
  case (Suc fuel)
  note run = Suc.prems
  show ?case
  proof (cases "at_path (mcts_head ag) node")
    case None
    with run show ?thesis by (auto simp: reaches_refl)
  next
    case (Some nd0)
    show ?thesis
    proof (cases "terminal nd0")
      case True
      with Some run show ?thesis by (auto simp: reaches_refl)
    next
      case False
      have p: "evolves 0 ag (final_state (parse_path P ag state node))"
        by (rule parse_path_evolves)
      show ?thesis
      proof (cases "parse_path P ag state node")
        case (Raise e ag1)
        with p Some False run show ?thesis by auto
      next
        case (Ret out ag1)
        obtain this_state tot' fin where out: "out = (this_state, tot', fin)"
          by (cases out) auto
        from p Ret have e1: "evolves 0 ag ag1" by simp
        have nt: "node = [] \<longrightarrow> \<not> fin"
          using Ret out parse_path_Nil_Ret by fastforce
        have e2: "evolves 0 ag (mark_terminal ag1 node fin)"
          by (rule evolves_step [OF e1 mark_terminal_evolves [OF nt]])
        show ?thesis
        proof (cases fin)
          case True
          from evolves_trans [OF backup_evolves e2]
          have e3: "evolves (Suc 0) ag
              (backup (mark_terminal ag1 node fin) node (episode_reward ag1 + tot'))" by simp
          from run Some False Ret out True
          have "greedy_loop fuel P state
              (backup (mark_terminal ag1 node fin) node (episode_reward ag1 + tot')) node = Some r"
            by simp
          from reaches_trans [OF e3 Suc.IH [OF this]] show ?thesis .
        next
          case nf: False
          have e3: "evolves 0 ag (final_state (expand_if_needed P (mark_terminal ag1 node fin) this_state node))"
            by (rule evolves_step [OF e2 expand_if_needed_evolves])
          show ?thesis
          proof (cases "expand_if_needed P (mark_terminal ag1 node fin) this_state node")
            case (Raise e ag3)
            with e3 run Some False Ret out nf show ?thesis by auto
          next
            case r3: (Ret u ag3)
            with e3 have e3': "evolves 0 ag ag3" by simp
            show ?thesis
            proof (cases "greedy_child ag3 node")
              case (Inl e)
              with e3' r3 run Some False Ret out nf show ?thesis by auto
            next
              case (Inr action)
              with r3 run Some False Ret out nf
              have "greedy_loop fuel P state ag3 (node @ [action]) = Some r" by simp
              from reaches_trans [OF e3' Suc.IH [OF this]] show ?thesis .
            qed
          qed
        qed
      qed
    qed
  qed
qed

lemma beam_select_evolves:
  "evolves 0 ag (final_state (beam_select beam_size ag node tot nb))"
  by (auto simp: beam_select_def intro: evolves_refl evolves_mark split: option.splits sum.splits)

lemma beam_node_evolves:
  "\<exists>j. evolves j ag (final_state (beam_node P state beam_size ag node nb))"
proof -
  have p: "evolves 0 ag (final_state (parse_path P ag state node))"
    by (rule parse_path_evolves)
  show ?thesis
  proof (cases "parse_path P ag state node")
    case (Raise e ag1)
    with p show ?thesis by (auto simp: beam_node_def)
  next
    case (Ret out ag1)
    obtain this_state tot' fin where out: "out = (this_state, tot', fin)"
      by (cases out) auto
    from p Ret have e1: "evolves 0 ag ag1" by simp
    have nt: "node = [] \<longrightarrow> \<not> fin"
      using Ret out parse_path_Nil_Ret by fastforce
    have e2: "evolves 0 ag (mark_terminal ag1 node fin)"
      by (rule evolves_step [OF e1 mark_terminal_evolves [OF nt]])
    show ?thesis
    proof (cases fin)
      case True
      from evolves_trans [OF backup_evolves e2]
      have e3: "evolves (Suc 0) ag
          (backup (mark_terminal ag1 node fin) node (episode_reward ag1 + tot'))" by simp
      from evolves_trans [OF beam_select_evolves e3]
      have "evolves (Suc 0) ag (final_state (beam_select beam_size
          (backup (mark_terminal ag1 node fin) node (episode_reward ag1 + tot')) node tot' nb))"
        by simp
      with Ret out True show ?thesis by (auto simp: beam_node_def)
    next
      case False
      have e3: "evolves 0 ag (final_state (expand_if_needed P (mark_terminal ag1 node fin) this_state node))"
        by (rule evolves_step [OF e2 expand_if_needed_evolves])
      show ?thesis
      proof (cases "expand_if_needed P (mark_terminal ag1 node fin) this_state node")
        case (Raise e ag3)
        with e3 Ret out False show ?thesis by (auto simp: beam_node_def)
      next
        case r3: (Ret u ag3)
        with e3 have e3': "evolves 0 ag ag3" by simp
        from evolves_step [OF e3' beam_select_evolves]
        have "evolves 0 ag (final_state (beam_select beam_size ag3 node tot' nb))" .
        with r3 Ret out False show ?thesis by (auto simp: beam_node_def)
      qed
    qed
  qed
qed

lemma beam_round_evolves:
  "\<exists>j. evolves j ag (final_state (beam_round P state beam_size ag beam nb))"
proof (induction beam arbitrary: ag nb)
  case Nil
  show ?case by (auto simp: reaches_refl)
next
  case (Cons entry beam)
  obtain r node where entry: "entry = (r, node)" by (cases entry) auto
  from beam_node_evolves [of ag P state beam_size node nb] obtain j where
    j: "evolves j ag (final_state (beam_node P state beam_size ag node nb))" by blast
  show ?case
  proof (cases "beam_node P state beam_size ag node nb")
    case (Raise e ag1)
    with j entry show ?thesis by auto
  next
    case (Ret nb' ag1)
    with j have "evolves j ag ag1" by simp
    from reaches_trans [OF this Cons.IH [of ag1 nb']] Ret entry show ?thesis by simp
  qed
qed

lemma beam_loop_evolves:
  "beam_loop fuel P state beam_size ag beam nb rounds = Some r
     \<Longrightarrow> \<exists>j. evolves j ag (final_state r)"
proof (induction fuel arbitrary: ag beam nb rounds)
  case 0
  then show ?case by simp
next
  case (Suc fuel)
  note run = Suc.prems
  show ?case
  proof (cases "beam = [] \<and> nb = []")
    case True
    with run show ?thesis by (auto simp: reaches_refl)
  next
    case False
    from beam_round_evolves [of ag P state beam_size beam nb] obtain j where
      j: "evolves j ag (final_state (beam_round P state beam_size ag beam nb))" by blast
    show ?thesis
    proof (cases "beam_round P state beam_size ag beam nb")
      case (Raise e ag1)
      with j run False show ?thesis by auto
    next
      case (Ret nb' ag1)
      with j have e1: "evolves j ag ag1" by simp
      from run False Ret
      have "beam_loop fuel P state beam_size ag1
               (py_take beam_size (sorted_desc fst nb')) [] (rounds @ [beam]) = Some r"
        by simp
      from reaches_trans [OF e1 Suc.IH [OF this]] show ?thesis .
    qed
  qed
qed

section \<open>Properties of the search\<close>

lemma map_of_map_upd:
  "map_of (map (\<lambda>(x, c). if x = a then (x, g c) else (x, c)) cs) a = map_option g (map_of cs a)"
  by (induction cs) auto

lemma at_path_modify_at: "at_path (modify_at f p t) p = map_option f (at_path t p)"
proof (induction p arbitrary: t)
  case Nil
  show ?case by simp
next
  case (Cons a p)
  show ?case
    by (cases t) (simp add: map_of_map_upd Cons.IH split: option.splits)
qed

lemma mcts_visits:
  assumes "returns (mcts P ag state max_steps)"
  shows "node_n (mcts_head (final_state (mcts P ag state max_steps)))
           = node_n (mcts_head ag) + nat (mcts_budget P ag state)"
proof -
  from mcts_evolves [of ag P state max_steps] assms
  have "evolves (nat (mcts_budget P ag state)) ag (final_state (mcts P ag state max_steps))"
    by auto
  then show ?thesis by (rule evolves_visits)
qed

text \<open>
  Claim C1, as amended. Every pass backs up once through the root, so the number of passes
  that a completed call of \<open>_mcts\<close> has executed is the growth of the root's visit count.
  On a root whose number of children is not one, the number \<open>n\<close> computed by the source
  is \<open>min(max(n_mc_target * legal actions - root.n, n_mc_min), n_mc_max)\<close>, and the
  number of passes executed is that number when it is not negative, and zero otherwise:
  \<open>range(n)\<close> is empty for a negative \<open>n\<close>.
\<close>

theorem mcts_pass_count:
  assumes "length (children (mcts_head ag)) \<noteq> 1"
      and "returns (mcts P ag state max_steps)"
  shows "mcts_budget P ag state =
           min (max (n_mc_target ag * int (length (find_legal_actions P state))
                       - int (node_n (mcts_head ag))) (n_mc_min ag)) (n_mc_max ag)
         \<and> int (node_n (mcts_head (final_state (mcts P ag state max_steps))))
               - int (node_n (mcts_head ag))
             = max 0 (min (max (n_mc_target ag * int (length (find_legal_actions P state))
                       - int (node_n (mcts_head ag))) (n_mc_min ag)) (n_mc_max ag))"
proof -
  have b: "mcts_budget P ag state =
           min (max (n_mc_target ag * int (length (find_legal_actions P state))
                       - int (node_n (mcts_head ag))) (n_mc_min ag)) (n_mc_max ag)"
    using assms(1) by (simp add: mcts_budget_def Let_def)
  from mcts_visits [OF assms(2)]
  have "int (node_n (mcts_head (final_state (mcts P ag state max_steps))))
          - int (node_n (mcts_head ag)) = int (nat (mcts_budget P ag state))"
    by simp
  also have "\<dots> = max 0 (mcts_budget P ag state)"
    by (simp add: max_def)
  finally show ?thesis using b by simp
qed

text \<open>The scenario of the specification: 5 trajectories per action, 3 legal actions, no
  visit yet, bounds 5 and 100; 15 passes are run.\<close>

theorem mcts_pass_count_witness:
  "length (children (mcts_head (toy_agent MCTSAgent 4))) \<noteq> 1
   \<and> returns (mcts toy (toy_agent MCTSAgent 4) 4 1000)
   \<and> length (find_legal_actions toy 4) = 3
   \<and> mcts_budget toy (toy_agent MCTSAgent 4) 4 = 15
   \<and> node_n (mcts_head (final_state (mcts toy (toy_agent MCTSAgent 4) 4 1000))) = 15"
proof -
  have h1: "length (children (mcts_head (toy_agent MCTSAgent 4))) \<noteq> 1" by code_simp
  have h2: "returns (mcts toy (toy_agent MCTSAgent 4) 4 1000)" by code_simp
  have v: "length (find_legal_actions toy 4) = 3" "n_mc_target (toy_agent MCTSAgent 4) = 5"
    "n_mc_min (toy_agent MCTSAgent 4) = 5" "n_mc_max (toy_agent MCTSAgent 4) = 100"
    "node_n (mcts_head (toy_agent MCTSAgent 4)) = 0"
    by code_simp+
  from mcts_pass_count [OF h1 h2] h1 h2 v show ?thesis by simp
qed

text \<open>Claim C1 as stated fails where the clamped number is negative: with
  \<open>n_mc_max = -1\<close> on a root with two children the formula gives \<open>-1\<close>, the call
  completes, and no pass is run.\<close>

theorem mcts_pass_count_counterexample:
  "returns (mcts toy ((toy_expanded MCTSAgent 3 two_leaves)\<lparr>n_mc_max := - 1\<rparr>) 3 1000)
   \<and> length (children (mcts_head ((toy_expanded MCTSAgent 3 two_leaves)\<lparr>n_mc_max := - 1\<rparr>))) = 2
   \<and> min (max (n_mc_target ((toy_expanded MCTSAgent 3 two_leaves)\<lparr>n_mc_max := - 1\<rparr>)
                  * int (length (find_legal_actions toy 3))
                - int (node_n (mcts_head ((toy_expanded MCTSAgent 3 two_leaves)\<lparr>n_mc_max := - 1\<rparr>))))
             (n_mc_min ((toy_expanded MCTSAgent 3 two_leaves)\<lparr>n_mc_max := - 1\<rparr>)))
        (n_mc_max ((toy_expanded MCTSAgent 3 two_leaves)\<lparr>n_mc_max := - 1\<rparr>)) = - 1
   \<and> node_n (mcts_head (final_state
         (mcts toy ((toy_expanded MCTSAgent 3 two_leaves)\<lparr>n_mc_max := - 1\<rparr>) 3 1000)))
       = node_n (mcts_head ((toy_expanded MCTSAgent 3 two_leaves)\<lparr>n_mc_max := - 1\<rparr>))"
  by code_simp

text \<open>
  Claim C2. When the root has exactly one child, the number of trajectories is 1, and a
  completed call of \<open>_mcts\<close> has executed exactly one pass: the root's visit count has
  grown by one, whatever the clamped budget would have been.
\<close>

theorem single_child_one_pass:
  assumes "length (children (mcts_head ag)) = 1"
      and "returns (mcts P ag state max_steps)"
  shows "mcts_budget P ag state = 1
         \<and> node_n (mcts_head (final_state (mcts P ag state max_steps)))
             = Suc (node_n (mcts_head ag))"
  using mcts_visits [OF assms(2)] assms(1) by (simp add: mcts_budget_def)

text \<open>A root with one child, where the clamped budget would be 5: one pass is run.\<close>

theorem single_child_one_pass_witness:
  "length (children (mcts_head (toy_expanded MCTSAgent 2 one_leaf))) = 1
   \<and> returns (mcts toy (toy_expanded MCTSAgent 2 one_leaf) 2 1000)
   \<and> min (max (n_mc_target (toy_expanded MCTSAgent 2 one_leaf)
                  * int (length (find_legal_actions toy 2))
                - int (node_n (mcts_head (toy_expanded MCTSAgent 2 one_leaf))))
             (n_mc_min (toy_expanded MCTSAgent 2 one_leaf)))
        (n_mc_max (toy_expanded MCTSAgent 2 one_leaf)) = 5
   \<and> node_n (mcts_head (final_state (mcts toy (toy_expanded MCTSAgent 2 one_leaf) 2 1000))) = 1"
proof -
  have h1: "length (children (mcts_head (toy_expanded MCTSAgent 2 one_leaf))) = 1" by code_simp
  have h2: "returns (mcts toy (toy_expanded MCTSAgent 2 one_leaf) 2 1000)" by code_simp
  have v: "node_n (mcts_head (toy_expanded MCTSAgent 2 one_leaf)) = 0"
    "min (max (n_mc_target (toy_expanded MCTSAgent 2 one_leaf)
                  * int (length (find_legal_actions toy 2))
                - int (node_n (mcts_head (toy_expanded MCTSAgent 2 one_leaf))))
             (n_mc_min (toy_expanded MCTSAgent 2 one_leaf)))
        (n_mc_max (toy_expanded MCTSAgent 2 one_leaf)) = 5"
    by code_simp+
  from single_child_one_pass [OF h1 h2] h1 h2 v show ?thesis by simp
qed


lemma evolves_agent_class: "evolves k a b \<Longrightarrow> agent_class b = agent_class a"
  using evolves_same_config same_config_fields by blast

lemma evolves_env: "evolves k a b \<Longrightarrow> env b = env a"
  using evolves_same_config same_config_fields by blast

lemma mcts_passes_evolves_ex:
  "\<exists>j. evolves j ag (final_state (mcts_passes P state max_steps k ag))"
  using mcts_passes_evolves [of ag P state max_steps k] by blast

text \<open>
  Claim C7 says that every decision returns the action with an info record holding its
  log probability, for every agent, the random-policy agent included. For the
  random-policy agent the source never gets there: \<open>_mcts\<close> calls \<open>_evaluate_policy\<close>
  with the keyword \<open>step_rewards\<close>, which \<open>RandomMCTSAgent._evaluate_policy\<close> does not
  accept, so no call of \<open>_mcts\<close> on such an agent returns.
\<close>

theorem random_agent_never_returns:
  assumes "agent_class ag = RandomMCTSAgent"
  shows "\<not> returns (mcts P ag state max_steps)"
proof (cases "mcts_passes P state max_steps (nat (mcts_budget P ag state)) ag")
  case (Raise e ag1)
  then show ?thesis by (simp add: mcts_def)
next
  case (Ret u ag1)
  from mcts_passes_evolves_ex [of ag P state max_steps "nat (mcts_budget P ag state)"] Ret
  obtain j where "evolves j ag ag1" by auto
  then have c: "agent_class ag1 = RandomMCTSAgent"
    using assms by (simp add: evolves_agent_class)
  show ?thesis
  proof (cases "select_best_max (mcts_head ag1)")
    case (Inl e)
    with Ret show ?thesis by (simp add: mcts_def)
  next
    case (Inr action)
    with Ret c show ?thesis
      by (simp add: mcts_def evaluate_policy_def evaluate_policy_random_def)
  qed
qed

text \<open>The random-policy agent on the small environment.\<close>

theorem random_agent_never_returns_witness:
  "agent_class (toy_agent RandomMCTSAgent 3) = RandomMCTSAgent
   \<and> \<not> returns (mcts toy (toy_agent RandomMCTSAgent 3) 3 1000)"
proof -
  have h: "agent_class (toy_agent RandomMCTSAgent 3) = RandomMCTSAgent" by code_simp
  from random_agent_never_returns [OF h] h show ?thesis by simp
qed

text \<open>The sibling path: a decision that returns comes from an agent with a policy network,
  and its info is the logarithm of the probability of the chosen action.\<close>

lemma actor_agent_log_prob:
  assumes "mcts P ag state max_steps = Ret (action, info) ag'"
  shows "agent_class ag \<in> {MCTSAgent, MCBSAgent} \<and> (\<exists>p. info = PScalar (torch_log P p))"
proof (cases "mcts_passes P state max_steps (nat (mcts_budget P ag state)) ag")
  case (Raise e ag1)
  with assms show ?thesis by (simp add: mcts_def)
next
  case (Ret u ag1)
  from mcts_passes_evolves_ex [of ag P state max_steps "nat (mcts_budget P ag state)"] Ret
  obtain j where "evolves j ag ag1" by auto
  then have c: "agent_class ag1 = agent_class ag" by (rule evolves_agent_class)
  show ?thesis
  proof (cases "select_best_max (mcts_head ag1)")
    case (Inl e)
    with assms Ret show ?thesis by (simp add: mcts_def)
  next
    case (Inr a)
    show ?thesis
    proof (cases "agent_class ag")
      case BaseMCTSAgent
      with assms Ret Inr c show ?thesis by (simp add: mcts_def evaluate_policy_def)
    next
      case RandomMCTSAgent
      with assms Ret Inr c show ?thesis
        by (simp add: mcts_def evaluate_policy_def evaluate_policy_random_def)
    next
      case MCTSAgent
      with assms Ret Inr c show ?thesis
        by (auto simp: mcts_def evaluate_policy_def evaluate_policy_actor_def log_of_def
            split: res.splits sum.splits if_splits)
    next
      case MCBSAgent
      with assms Ret Inr c show ?thesis
        by (auto simp: mcts_def evaluate_policy_def evaluate_policy_actor_def log_of_def
            split: res.splits sum.splits if_splits)
    qed
  qed
qed

text \<open>Without the keyword, the branch for a given action still returns \<open>None\<close> (the
  \<open>return\<close> is missing), and \<open>torch.log(None)\<close> fails.\<close>

lemma random_policy_returns_none:
  "evaluate_policy_random P ag state acts None (Some a) =
     (if acts = [] then Raise ZeroDivisionError ag else Ret PNone ag)
   \<and> log_of P PNone = Inl TypeError"
  by (simp add: evaluate_policy_random_def log_of_def)

text \<open>
  Claim C9, as amended. The constructors and \<open>set_precision\<close> store every parameter as it
  is given and report no error, whatever the values: the source validates nothing, neither
  at construction nor later.
\<close>

theorem config_stored_unvalidated:
  "init_agent P cls e cfg =
     Inr \<lparr>agent_class = cls, env = e, sim_env = disable_reset P e,
          mcts_head = new_node (fst (cfg_reward_range cfg)) 0, episode_reward = 0,
          n_mc_target = cfg_n_mc_target cfg, n_mc_min = cfg_n_mc_min cfg,
          n_mc_max = cfg_n_mc_max cfg, mcts_mode = cfg_mcts_mode cfg, c_puct = cfg_c_puct cfg,
          reward_range = cfg_reward_range cfg,
          log_likelihood_feature = cfg_log_likelihood_feature cfg,
          self_beam_size = cfg_beam_size cfg\<rparr>
   \<and> set_precision ag target lo hi mode c =
     Inr (ag\<lparr>n_mc_target := target, n_mc_min := lo, n_mc_max := hi, mcts_mode := mode,
             c_puct := c\<rparr>)"
  by (simp add: init_agent_def set_precision_def)

text \<open>Claim C9 as stated fails: a configuration with \<open>n_mc_min > n_mc_max\<close>, a negative
  maximum, the mode \<open>median\<close>, a negative \<open>c_puct\<close> and a beam of width 0 is accepted
  by the constructor.\<close>

theorem config_error_counterexample:
  "\<not> isl (init_agent toy MCBSAgent 3 bad_config :: error + (nat, nat, int) agent)
   \<and> cfg_n_mc_max bad_config < cfg_n_mc_min bad_config
   \<and> cfg_mcts_mode bad_config \<notin> {''mean'', ''max''}
   \<and> cfg_c_puct bad_config \<le> 0
   \<and> cfg_beam_size bad_config < 1"
  by (simp add: init_agent_def bad_config_def)


lemma select_child_sim_only: "sim_only ag (final_state (select_child P ag s node))"
proof (cases "at_path (mcts_head ag) node")
  case None
  then show ?thesis by (simp add: select_child_def sim_only_refl)
next
  case (Some nd)
  note e = evaluate_policy_sim_only [of ag P s "children_keys nd" "Some (children_q_steps nd)" None]
  show ?thesis
  proof (cases "evaluate_policy P ag s (children_keys nd) (Some (children_q_steps nd)) None")
    case (Raise e' ag1)
    with e Some show ?thesis by (simp add: select_child_def)
  next
    case (Ret pp ag1)
    with e Some show ?thesis
      by (simp add: select_child_def split: sum.splits option.splits)
  qed
qed

lemma select_child_no_children:
  assumes "at_path (mcts_head ag) node = Some nd" and "children nd = []"
  shows "\<not> returns (select_child P ag s node)"
proof (cases "evaluate_policy P ag s (children_keys nd) (Some (children_q_steps nd)) None")
  case (Raise e ag1)
  with assms show ?thesis by (simp add: select_child_def)
next
  case (Ret pp ag1)
  with assms show ?thesis by (simp add: select_child_def split: sum.splits)
qed

lemma expand_no_actions:
  "children nd = [] \<Longrightarrow> expand m [] rs nd = nd"
  by (cases nd) (simp add: expand_def)

text \<open>
  Claim C8, as amended. When a simulation pass replays a node as non-terminal, the node
  has no children and no legal action is enumerable from the replayed state, the node is
  not treated as terminal: it is expanded into no children, its terminal flag stays
  \<open>False\<close>, and the pass fails with an exception, raised by the policy evaluation, by the
  PUCT choice or by the lookup of the chosen child among no children.
\<close>

theorem zero_actions_pass_fails:
  assumes pp: "parse_path P ag state node = Ret (this_state, tot', False) ag1"
      and nd: "at_path (mcts_head ag) node = Some nd"
      and ch: "children nd = []"
      and za: "find_legal_actions P this_state = []"
  shows "\<not> returns (mcts_descend P state (Suc k) ag node tot)
         \<and> at_path (mcts_head (final_state (mcts_descend P state (Suc k) ag node tot))) node
             = Some (set_terminal False nd)
         \<and> \<not> terminal (set_terminal False nd) \<and> children (set_terminal False nd) = []"
proof -
  define ag2 where "ag2 = mark_terminal ag1 node False"
  from parse_path_sim_only [of ag P state node] pp
  have h1: "mcts_head ag1 = mcts_head ag"
    using sim_only_fields [of ag ag1] by simp
  have a2: "at_path (mcts_head ag2) node = Some (set_terminal False nd)"
    by (simp add: ag2_def mark_terminal_def h1 at_path_modify_at nd)
  have c2: "children (set_terminal False nd) = []"
    using ch by (simp add: set_terminal_def)
  have ex: "expand_if_needed P ag2 this_state node =
      Ret () (ag2\<lparr>mcts_head := modify_at (expand (fst (reward_range ag2)) [] []) node (mcts_head ag2)\<rparr>)"
    by (simp add: expand_if_needed_def a2 c2 expand_node_def za)
  define ag3 where
    "ag3 = ag2\<lparr>mcts_head := modify_at (expand (fst (reward_range ag2)) [] []) node (mcts_head ag2)\<rparr>"
  have a3: "at_path (mcts_head ag3) node = Some (set_terminal False nd)"
    by (simp add: ag3_def at_path_modify_at a2 expand_no_actions [OF c2])
  have unfold: "mcts_descend P state (Suc k) ag node tot =
      (case select_child P ag3 this_state node of
         Raise e ag4 \<Rightarrow> Raise e ag4
       | Ret action ag4 \<Rightarrow> mcts_descend P state k ag4 (node @ [action]) tot')"
    using pp ex by (simp add: ag2_def ag3_def)
  have nr: "\<not> returns (select_child P ag3 this_state node)"
    by (rule select_child_no_children [OF a3 c2])
  have so: "sim_only ag3 (final_state (select_child P ag3 this_state node))"
    by (rule select_child_sim_only)
  obtain e ag4 where r: "select_child P ag3 this_state node = Raise e ag4"
    using nr by (cases "select_child P ag3 this_state node") auto
  with so have "mcts_head ag4 = mcts_head ag3"
    using sim_only_fields [of ag3 ag4] by simp
  with r unfold a3 c2 show ?thesis
    by (simp add: set_terminal_def)
qed

text \<open>The small environment with one particle left: no legal action at the root.\<close>

theorem zero_actions_pass_fails_witness:
  "parse_path toy (toy_agent MCTSAgent 1) 1 [] = Ret (1, 0, False) (toy_agent MCTSAgent 1)
   \<and> at_path (mcts_head (toy_agent MCTSAgent 1)) [] = Some (new_node (- 200) 0)
   \<and> children (new_node (- 200) 0 :: (nat, int) node) = []
   \<and> find_legal_actions toy 1 = []
   \<and> \<not> returns (mcts_descend toy 1 (Suc 999) (toy_agent MCTSAgent 1) [] 0)"
proof -
  have h1: "parse_path toy (toy_agent MCTSAgent 1) 1 [] = Ret (1, 0, False) (toy_agent MCTSAgent 1)"
    by code_simp
  have h2: "at_path (mcts_head (toy_agent MCTSAgent 1)) [] = Some (new_node (- 200) 0)"
    by code_simp
  have h3: "children (new_node (- 200) 0 :: (nat, int) node) = []" by code_simp
  have h4: "find_legal_actions toy 1 = []" by code_simp
  from zero_actions_pass_fails [OF h1 h2 h3 h4, of 999 0] h1 h2 h3 h4 show ?thesis by simp
qed

text \<open>Claim C8 as stated fails on the small environment with one particle left: the pass
  and the whole decision raise, and the root is not marked terminal.\<close>

theorem zero_actions_counterexample:
  "find_legal_actions toy 1 = []
   \<and> mcts_pass toy 1 1000 (toy_agent MCTSAgent 1) = Raise RuntimeError (toy_agent MCTSAgent 1)
   \<and> \<not> terminal (mcts_head (toy_agent MCTSAgent 1))
   \<and> mcts toy (toy_agent MCTSAgent 1) 1 1000 = Raise RuntimeError (toy_agent MCTSAgent 1)"
  by code_simp


lemma mcts_descend_root:
  assumes "returns (parse_path P ag state [])"
  shows "\<not> terminal (mcts_head (final_state (mcts_descend P state (Suc k) ag [] tot)))"
proof (cases "parse_path P ag state []")
  case (Raise e ag1)
  with assms show ?thesis by simp
next
  case (Ret out ag1)
  obtain s tot' fin where out: "out = (s, tot', fin)" by (cases out) auto
  from Ret out have nf: "\<not> fin" using parse_path_Nil_Ret by fastforce
  define ag2 where "ag2 = mark_terminal ag1 [] False"
  have t2: "\<not> terminal (mcts_head ag2)"
    by (simp add: ag2_def mark_terminal_def set_terminal_def)
  from evolves_root_nonterminal [OF expand_if_needed_evolves t2]
  have t3: "\<not> terminal (mcts_head (final_state (expand_if_needed P ag2 s [])))" .
  show ?thesis
  proof (cases "expand_if_needed P ag2 s []")
    case (Raise e ag3)
    with t3 Ret out nf show ?thesis by (simp add: ag2_def)
  next
    case r3: (Ret u ag3)
    with t3 have t3': "\<not> terminal (mcts_head ag3)" by simp
    from evolves_root_nonterminal [OF select_child_evolves t3']
    have t4: "\<not> terminal (mcts_head (final_state (select_child P ag3 s [])))" .
    show ?thesis
    proof (cases "select_child P ag3 s []")
      case (Raise e ag4)
      with t4 Ret out nf r3 show ?thesis by (simp add: ag2_def)
    next
      case r4: (Ret action ag4)
      with t4 have t4': "\<not> terminal (mcts_head ag4)" by simp
      from evolves_root_nonterminal [OF mcts_descend_evolves t4']
      have "\<not> terminal (mcts_head (final_state (mcts_descend P state k ag4 ([] @ [action]) tot')))" .
      with Ret out nf r3 r4 show ?thesis by (simp add: ag2_def)
    qed
  qed
qed

lemma mcts_pass_root:
  assumes "0 < max_steps" and "returns (parse_path P ag state [])"
  shows "\<not> terminal (mcts_head (final_state (mcts_pass P state max_steps ag)))"
proof -
  from assms(1) obtain k where k: "nat max_steps = Suc k"
    by (cases "nat max_steps") auto
  note d = mcts_descend_root [OF assms(2), of k 0]
  show ?thesis
  proof (cases "mcts_descend P state (Suc k) ag [] 0")
    case (Raise e ag1)
    with d k show ?thesis by (simp add: mcts_pass_def)
  next
    case (Ret out ag1)
    with d have "\<not> terminal (mcts_head ag1)" by simp
    with Ret k show ?thesis
      by (simp add: mcts_pass_def backup_def terminal_give_reward split: prod.splits)
  qed
qed

lemma beam_node_root:
  assumes "returns (parse_path P ag state [])"
  shows "\<not> terminal (mcts_head (final_state (beam_node P state bs ag [] nb)))"
proof (cases "parse_path P ag state []")
  case (Raise e ag1)
  with assms show ?thesis by simp
next
  case (Ret out ag1)
  obtain s tot' fin where out: "out = (s, tot', fin)" by (cases out) auto
  from Ret out have nf: "\<not> fin" using parse_path_Nil_Ret by fastforce
  define ag2 where "ag2 = mark_terminal ag1 [] False"
  have t2: "\<not> terminal (mcts_head ag2)"
    by (simp add: ag2_def mark_terminal_def set_terminal_def)
  from evolves_root_nonterminal [OF expand_if_needed_evolves t2]
  have t3: "\<not> terminal (mcts_head (final_state (expand_if_needed P ag2 s [])))" .
  show ?thesis
  proof (cases "expand_if_needed P ag2 s []")
    case (Raise e ag3)
    with t3 Ret out nf show ?thesis by (simp add: beam_node_def ag2_def)
  next
    case r3: (Ret u ag3)
    with t3 have t3': "\<not> terminal (mcts_head ag3)" by simp
    from evolves_root_nonterminal [OF beam_select_evolves t3']
    have "\<not> terminal (mcts_head (final_state (beam_select bs ag3 [] tot' nb)))" .
    with Ret out nf r3 show ?thesis by (simp add: beam_node_def ag2_def)
  qed
qed

lemma beam_search_root:
  assumes "beam_search fuel P ag state bs = Some r" and "returns (parse_path P ag state [])"
  shows "\<not> terminal (mcts_head (final_state r))"
proof (cases fuel)
  case 0
  with assms show ?thesis by (simp add: beam_search_def)
next
  case (Suc f)
  note n = beam_node_root [OF assms(2), of bs "[]"]
  show ?thesis
  proof (cases "beam_node P state bs ag [] []")
    case (Raise e ag1)
    with assms(1) Suc have "r = Raise e ag1" by (simp add: beam_search_def)
    with n Raise show ?thesis by simp
  next
    case (Ret nb' ag1)
    with n have t1: "\<not> terminal (mcts_head ag1)" by simp
    from assms(1) Suc Ret
    have "beam_loop f P state bs ag1 (py_take bs (sorted_desc fst nb')) []
            ([] @ [[(episode_reward ag, [])]]) = Some r"
      by (simp add: beam_search_def)
    from beam_loop_evolves [OF this] obtain j where "evolves j ag1 (final_state r)" by blast
    from evolves_root_nonterminal [OF this t1] show ?thesis .
  qed
qed

lemma greedy_root:
  assumes "greedy fuel P ag state = Some r" and "\<not> terminal (mcts_head ag)"
  shows "\<not> terminal (mcts_head (final_state r))"
proof -
  from assms(1) greedy_loop_evolves [of fuel P state ag "[]" r]
  obtain j where "evolves j ag (final_state r)" by (auto simp: greedy_def)
  from evolves_root_nonterminal [OF this assms(2)] show ?thesis .
qed

text \<open>
  Claim C10. Replaying the empty path performs no step of the environment (the result does
  not depend on the step function) and returns the cumulative reward 0 and the terminal
  flag \<open>False\<close>. So, whenever that replay returns, a pass of the tree search (with a
  positive depth cap) and a beam search leave the root marked non-terminal, whether they
  go on to return or to raise, and so does a greedy expansion started on a root not yet
  marked terminal; the state of the environment plays no part.
\<close>

theorem root_replay_never_terminal:
  "parse_path P ag state [] =
     (case needs_resync P ag of
        Inl e \<Rightarrow> Raise e ag
      | Inr b \<Rightarrow>
          Ret (tensorize P state, 0, False)
            ((if b then resync P ag else ag)
               \<lparr>sim_env := set_verbose P (sim_env (if b then resync P ag else ag)) False\<rparr>))
   \<and> parse_path (P\<lparr>env_step := f\<rparr>) ag state [] = parse_path P ag state []
   \<and> (0 < max_steps \<and> returns (parse_path P ag state [])
        \<longrightarrow> \<not> terminal (mcts_head (final_state (mcts_pass P state max_steps ag))))
   \<and> (\<forall>r. greedy fuel P ag state = Some r \<and> \<not> terminal (mcts_head ag)
        \<longrightarrow> \<not> terminal (mcts_head (final_state r)))
   \<and> (\<forall>r. beam_search fuel P ag state bs = Some r \<and> returns (parse_path P ag state [])
        \<longrightarrow> \<not> terminal (mcts_head (final_state r)))"
proof -
  have a: "parse_path (P\<lparr>env_step := f\<rparr>) ag state [] = parse_path P ag state []"
    by (simp add: parse_path_Nil needs_resync_def resync_def split: option.splits sum.splits)
  show ?thesis
    using parse_path_Nil [of P ag state] a mcts_pass_root [of max_steps P ag state]
      greedy_root [of fuel P ag state] beam_search_root [of fuel P ag state bs]
    by blast
qed

text \<open>The small environment with one particle left is already terminal; the root is still
  replayed and marked as non-terminal by the three traversals.\<close>

theorem root_replay_never_terminal_witness:
  "parse_path toy (toy_agent MCBSAgent 1) 1 [] = Ret (1, 0, False) (toy_agent MCBSAgent 1)
   \<and> find_legal_actions toy 1 = []
   \<and> mcts_pass toy 1 1000 (toy_agent MCBSAgent 1) = Raise RuntimeError (toy_agent MCBSAgent 1)
   \<and> \<not> terminal (mcts_head (final_state (mcts_pass toy 1 1000 (toy_agent MCBSAgent 1))))
   \<and> greedy 10 toy (toy_agent MCBSAgent 1) 1 = Some (Raise ValueError (toy_agent MCBSAgent 1))
   \<and> \<not> terminal (mcts_head (toy_agent MCBSAgent 1))
   \<and> map_option returns (beam_search 10 toy (toy_agent MCBSAgent 1) 1 10) = Some True
   \<and> map_option (\<lambda>r. terminal (mcts_head (final_state r)))
        (beam_search 10 toy (toy_agent MCBSAgent 1) 1 10) = Some False"
proof -
  have h1: "mcts_pass toy 1 1000 (toy_agent MCBSAgent 1) = Raise RuntimeError (toy_agent MCBSAgent 1)"
    by code_simp
  have h2: "greedy 10 toy (toy_agent MCBSAgent 1) 1 = Some (Raise ValueError (toy_agent MCBSAgent 1))"
    "\<not> terminal (mcts_head (toy_agent MCBSAgent 1))"
    by code_simp+
  have h3: "map_option returns (beam_search 10 toy (toy_agent MCBSAgent 1) 1 10) = Some True"
    by code_simp
  have h4: "needs_resync toy (toy_agent MCBSAgent 1) = Inr False" "find_legal_actions toy 1 = []"
    "tensorize toy 1 = 1"
    "(toy_agent MCBSAgent 1)\<lparr>sim_env := set_verbose toy (sim_env (toy_agent MCBSAgent 1)) False\<rparr>
       = toy_agent MCBSAgent 1"
    by code_simp+
  obtain r where r: "beam_search 10 toy (toy_agent MCBSAgent 1) 1 10 = Some r"
    using h3 by (cases "beam_search 10 toy (toy_agent MCBSAgent 1) 1 10") auto
  note t = root_replay_never_terminal [where P = toy and ag = "toy_agent MCBSAgent 1" and state = 1
      and max_steps = 1000 and fuel = 10 and bs = 10]
  have a: "parse_path toy (toy_agent MCBSAgent 1) 1 [] = Ret (1, 0, False) (toy_agent MCBSAgent 1)"
    using t h4 by simp
  then have p: "returns (parse_path toy (toy_agent MCBSAgent 1) 1 [])" by simp
  have b: "\<not> terminal (mcts_head (final_state (mcts_pass toy 1 1000 (toy_agent MCBSAgent 1))))"
    using t p by simp
  have c: "\<not> terminal (mcts_head (final_state r))"
    using t r p by blast
  from c r have d: "map_option (\<lambda>r. terminal (mcts_head (final_state r)))
        (beam_search 10 toy (toy_agent MCBSAgent 1) 1 10) = Some False" by simp
  from a b d h1 h2 h3 h4(2) show ?thesis by simp
qed


lemma beam_search_evolves:
  assumes "beam_search fuel P ag state bs = Some r"
  shows "\<exists>j. evolves j ag (final_state r)"
  using assms unfolding beam_search_def by (rule beam_loop_evolves)

lemma greedy_evolves:
  assumes "greedy fuel P ag state = Some r"
  shows "\<exists>j. evolves j ag (final_state r)"
  using assms unfolding greedy_def by (rule greedy_loop_evolves)

lemma mcbs_predict_evolves:
  assumes "mcbs_predict fuel P ag state = Some r"
  shows "\<exists>j. evolves j ag (final_state r)"
proof (cases "greedy fuel P ag state")
  case None
  with assms show ?thesis by (simp add: mcbs_predict_def)
next
  case (Some g)
  from greedy_evolves [OF Some] obtain j where j: "evolves j ag (final_state g)" by blast
  show ?thesis
  proof (cases g)
    case (Raise e ag1)
    with assms Some have "final_state r = final_state g" by (auto simp: mcbs_predict_def)
    with j show ?thesis by auto
  next
    case g: (Ret p ag1)
    with j have e1: "evolves j ag ag1" by simp
    show ?thesis
    proof (cases "beam_search fuel P ag1 state (self_beam_size ag1)")
      case None
      with assms Some g show ?thesis by (simp add: mcbs_predict_def)
    next
      case b: (Some bres)
      from beam_search_evolves [OF b]
      obtain k where k: "evolves k ag1 (final_state bres)" by blast
      from evolves_trans [OF k e1] have e2: "evolves (j + k) ag (final_state bres)" .
      show ?thesis
      proof (cases bres)
        case (Raise e ag2)
        with assms Some g b have "final_state r = final_state bres"
          by (auto simp: mcbs_predict_def)
        with e2 show ?thesis by auto
      next
        case r2: (Ret rounds ag2)
        with e2 have e2': "evolves (j + k) ag ag2" by simp
        from mcts_evolves [of ag2 P state 1000]
        obtain m where m: "evolves m ag2 (final_state (mcts P ag2 state 1000))" by blast
        from assms Some g b r2 have "r = mcts P ag2 state 1000" by (simp add: mcbs_predict_def)
        with evolves_trans [OF m e2'] show ?thesis by blast
      qed
    qed
  qed
qed

text \<open>
  Claim C4. Path replay, a decision by tree search, greedy expansion, beam search and the
  decision of the hybrid agent leave the real environment of the agent as it was, whether
  they return or raise; they change the private copy and the tree only. The environment's
  attribute \<open>state\<close> and its method \<open>get_internal_state\<close> are the only uses of the real
  environment in the source, and both are reads.
\<close>

theorem real_env_never_mutated:
  "env (final_state (parse_path P ag state path)) = env ag
   \<and> env (final_state (mcts P ag state max_steps)) = env ag
   \<and> (\<forall>r. greedy fuel P ag state = Some r \<longrightarrow> env (final_state r) = env ag)
   \<and> (\<forall>r. beam_search fuel P ag state bs = Some r \<longrightarrow> env (final_state r) = env ag)
   \<and> (\<forall>r. mcbs_predict fuel P ag state = Some r \<longrightarrow> env (final_state r) = env ag)"
proof -
  have 1: "env (final_state (parse_path P ag state path)) = env ag"
    by (rule evolves_env [OF parse_path_evolves])
  obtain j where "evolves j ag (final_state (mcts P ag state max_steps))"
    using mcts_evolves [of ag P state max_steps] by blast
  then have 2: "env (final_state (mcts P ag state max_steps)) = env ag"
    by (rule evolves_env)
  have 3: "env (final_state r) = env ag" if "greedy fuel P ag state = Some r" for r
  proof -
    from greedy_evolves [OF that] obtain j where "evolves j ag (final_state r)" by blast
    then show ?thesis by (rule evolves_env)
  qed
  have 4: "env (final_state r) = env ag" if "beam_search fuel P ag state bs = Some r" for r
  proof -
    from beam_search_evolves [OF that] obtain j where "evolves j ag (final_state r)" by blast
    then show ?thesis by (rule evolves_env)
  qed
  have 5: "env (final_state r) = env ag" if "mcbs_predict fuel P ag state = Some r" for r
  proof -
    from mcbs_predict_evolves [OF that] obtain j where "evolves j ag (final_state r)" by blast
    then show ?thesis by (rule evolves_env)
  qed
  from 1 2 3 4 5 show ?thesis by blast
qed

text \<open>On the small environment the copy ends at one particle and the real environment
  keeps its three.\<close>

theorem real_env_never_mutated_witness:
  "env (final_state (parse_path toy (toy_agent MCBSAgent 3) 3 [0, 0])) = 3
   \<and> sim_env (final_state (parse_path toy (toy_agent MCBSAgent 3) 3 [0, 0])) = 1
   \<and> env (final_state (mcts toy (toy_agent MCBSAgent 3) 3 1000)) = 3
   \<and> map_option (\<lambda>r. env (final_state r)) (greedy 10 toy (toy_agent MCBSAgent 3) 3) = Some 3
   \<and> map_option (\<lambda>r. env (final_state r)) (beam_search 10 toy (toy_agent MCBSAgent 3) 3 10) = Some 3
   \<and> map_option (\<lambda>r. env (final_state r)) (mcbs_predict 10 toy (toy_agent MCBSAgent 3) 3) = Some 3"
proof -
  have e: "env (toy_agent MCBSAgent 3) = 3"
    "sim_env (final_state (parse_path toy (toy_agent MCBSAgent 3) 3 [0, 0])) = 1"
    by code_simp+
  have h: "greedy 10 toy (toy_agent MCBSAgent 3) 3 \<noteq> None"
    "beam_search 10 toy (toy_agent MCBSAgent 3) 3 10 \<noteq> None"
    "mcbs_predict 10 toy (toy_agent MCBSAgent 3) 3 \<noteq> None"
    by code_simp+
  then obtain g b m where gbm: "greedy 10 toy (toy_agent MCBSAgent 3) 3 = Some g"
    "beam_search 10 toy (toy_agent MCBSAgent 3) 3 10 = Some b"
    "mcbs_predict 10 toy (toy_agent MCBSAgent 3) 3 = Some m"
    by blast
  note t = real_env_never_mutated [where P = toy and ag = "toy_agent MCBSAgent 3" and state = 3
      and path = "[0, 0]" and max_steps = 1000 and fuel = 10 and bs = 10]
  from t gbm have "env (final_state g) = 3" "env (final_state b) = 3" "env (final_state m) = 3"
    "env (final_state (parse_path toy (toy_agent MCBSAgent 3) 3 [0, 0])) = 3"
    "env (final_state (mcts toy (toy_agent MCBSAgent 3) 3 1000)) = 3"
    by (simp_all add: e(1))
  with gbm e show ?thesis by simp
qed

section \<open>Beam search: frontiers\<close>

lemma wf_tree_children: "wf_tree nd \<Longrightarrow> distinct (map fst (children nd))"
  by (cases nd) simp

lemma wf_tree_child: "wf_tree nd \<Longrightarrow> map_of (children nd) a = Some c \<Longrightarrow> wf_tree c"
  by (cases nd) (auto dest: map_of_SomeD intro: rev_image_eqI)

lemma wf_tree_at_path: "wf_tree t \<Longrightarrow> at_path t p = Some nd \<Longrightarrow> wf_tree nd"
proof (induction p arbitrary: t)
  case Nil
  then show ?case by simp
next
  case (Cons a p)
  then show ?case by (auto split: option.splits dest: wf_tree_child)
qed

lemma map_fst_upd:
  "map fst (map (\<lambda>(x, c). if x = a then (x, g c) else (x, c)) cs) = map fst cs"
  by (induction cs) auto

lemma wf_tree_modify_at:
  "wf_tree t \<Longrightarrow> (\<And>x. wf_tree x \<Longrightarrow> wf_tree (f x)) \<Longrightarrow> wf_tree (modify_at f p t)"
proof (induction p arbitrary: t)
  case Nil
  then show ?case by simp
next
  case (Cons a p)
  obtain k s m st tm b cs where t: "t = MCTSNode k s m st tm b cs" by (cases t)
  from Cons.prems(1) t have d: "distinct (map fst cs)" and w: "\<forall>c \<in> snd ` set cs. wf_tree c"
    by simp_all
  have "\<forall>c \<in> snd ` set (map (\<lambda>(x, c). if x = a then (x, modify_at f p c) else (x, c)) cs). wf_tree c"
    using w Cons.IH Cons.prems(2) by (auto split: if_splits)
  moreover have "distinct (map fst (map (\<lambda>(x, c). if x = a then (x, modify_at f p c) else (x, c)) cs))"
    using d by (simp only: map_fst_upd)
  ultimately show ?case using t by simp
qed

lemma wf_tree_give_reward: "wf_tree t \<Longrightarrow> wf_tree (give_reward r p t)"
proof (induction p arbitrary: t)
  case Nil
  then show ?case by (cases t) (simp add: give_reward1_def)
next
  case (Cons a p)
  obtain k s m st tm b cs where t: "t = MCTSNode k s m st tm b cs" by (cases t)
  from Cons.prems(1) t have d: "distinct (map fst cs)" and w: "\<forall>c \<in> snd ` set cs. wf_tree c"
    by simp_all
  have "\<forall>c \<in> snd ` set (map (\<lambda>(x, c). if x = a then (x, give_reward r p c) else (x, c)) cs). wf_tree c"
    using w Cons.IH by (auto split: if_splits)
  moreover have "distinct (map fst (map (\<lambda>(x, c). if x = a then (x, give_reward r p c) else (x, c)) cs))"
    using d by (simp only: map_fst_upd)
  ultimately show ?case using t by (simp add: give_reward1_def)
qed

lemma wf_tree_set_terminal: "wf_tree x \<Longrightarrow> wf_tree (set_terminal t x)"
  by (cases x) (simp add: set_terminal_def)

lemma wf_tree_mark_in_beam: "wf_tree x \<Longrightarrow> wf_tree (mark_in_beam x)"
  by (cases x) (simp add: mark_in_beam_def)

lemma fresh_children:
  "distinct (map fst al) \<Longrightarrow> (\<forall>c \<in> snd ` set al. wf_tree c)
     \<Longrightarrow> distinct (map fst (foldl (\<lambda>al (a, r). AList.update a (new_node m r) al) al zs))
         \<and> (\<forall>c \<in> snd ` set (foldl (\<lambda>al (a, r). AList.update a (new_node m r) al) al zs). wf_tree c)"
proof (induction zs arbitrary: al)
  case Nil
  then show ?case by simp
next
  case (Cons z zs)
  obtain a r where z: "z = (a, r)" by (cases z) auto
  have 1: "distinct (map fst (AList.update a (new_node m r) al))"
    using Cons.prems(1) by (simp add: distinct_update)
  have "set (AList.update a (new_node m r) al) \<subseteq> insert (a, new_node m r) (set al)"
    by (induction al) auto
  then have 2: "\<forall>c \<in> snd ` set (AList.update a (new_node m r) al). wf_tree c"
    using Cons.prems(2) by (auto simp: new_node_def)
  from Cons.IH [OF 1 2] z show ?case by simp
qed

lemma wf_tree_expand: "wf_tree x \<Longrightarrow> wf_tree (expand m acts rs x)"
  using fresh_children [of "[]" m "zip acts rs"]
  by (cases x) (auto simp: expand_def)

lemma evolves_wf_tree: "evolves k a b \<Longrightarrow> wf_tree (mcts_head a) \<Longrightarrow> wf_tree (mcts_head b)"
proof (induction rule: evolves.induct)
  case (evolves_sim k ag ag1 ag2)
  then show ?case using sim_only_fields [of ag1 ag2] by simp
qed (simp_all add: wf_tree_modify_at wf_tree_give_reward wf_tree_set_terminal
      wf_tree_mark_in_beam wf_tree_expand)


lemma set_sorted_desc: "set (sorted_desc key xs) = set xs"
  by (simp add: sorted_desc_def)

lemma length_sorted_desc: "length (sorted_desc key xs) = length xs"
  by (simp add: sorted_desc_def)

lemma distinct_sorted_desc: "distinct (sorted_desc key xs) = distinct xs"
  by (simp add: sorted_desc_def)

lemma mset_sorted_desc: "mset (sorted_desc key xs) = mset xs"
  by (simp add: sorted_desc_def)

lemma sorted_desc_sorted: "sorted (rev (map key (sorted_desc key xs)))"
  by (simp add: sorted_desc_def rev_map [symmetric])

lemma sorted_desc_split:
  "x \<in> set (take n (sorted_desc key xs)) \<Longrightarrow> y \<in> set (drop n (sorted_desc key xs))
     \<Longrightarrow> key y \<le> key x"
proof -
  assume x: "x \<in> set (take n (sorted_desc key xs))" and y: "y \<in> set (drop n (sorted_desc key xs))"
  define S where "S = sorted_desc key xs"
  have "sorted (rev (map key (take n S @ drop n S)))"
    by (simp add: S_def sorted_desc_sorted)
  then have "sorted (rev (map key (drop n S)) @ rev (map key (take n S)))"
    by (simp only: map_append rev_append)
  then have "\<forall>u \<in> set (rev (map key (drop n S))). \<forall>v \<in> set (rev (map key (take n S))). u \<le> v"
    by (simp only: sorted_append) blast
  with x y show ?thesis by (auto simp: S_def)
qed

lemma py_take_is_take: "\<exists>n. py_take k xs = take n xs"
  by (auto simp: py_take_def)

lemma py_take_length: "0 \<le> k \<Longrightarrow> length (py_take k xs) \<le> nat k"
  by (simp add: py_take_def)

lemma distinct_map_sorted_desc:
  "distinct (map f (sorted_desc key xs)) = distinct (map f xs)"
  by (simp add: distinct_map distinct_sorted_desc set_sorted_desc)

lemma distinct_map_sort_key:
  "distinct (map f (sort_key key xs)) = distinct (map f xs)"
  by (simp add: distinct_map)

lemma distinct_map_py_take: "distinct (map f xs) \<Longrightarrow> distinct (map f (py_take k xs))"
  by (auto simp: py_take_def take_map [symmetric])

lemma set_py_take: "set (py_take k xs) \<subseteq> set xs"
  by (auto simp: py_take_def dest: in_set_takeD)

lemma select_beam_search_distinct:
  "distinct (map fst (children nd)) \<Longrightarrow> distinct (select_beam_search bs nd)"
  unfolding select_beam_search_def
  by (intro distinct_map_py_take)
    (simp add: distinct_map_sorted_desc distinct_map_sort_key distinct_map_filter)

lemma select_beam_search_length:
  "0 \<le> bs \<Longrightarrow> length (select_beam_search bs nd) \<le> nat bs"
  by (simp add: select_beam_search_def py_take_length)

lemma push_children_paths:
  "push_children nd node tot acts nb = Inr nb'
     \<Longrightarrow> map snd nb' = map snd nb @ map (\<lambda>a. node @ [a]) acts"
proof (induction acts arbitrary: nb)
  case Nil
  then show ?case by simp
next
  case (Cons a acts)
  then show ?case by (auto split: option.splits)
qed

lemma beam_select_pushes:
  assumes "beam_select bs ag node tot nb = Ret nb' ag'"
  shows "\<exists>acts. int (length acts) \<le> max 0 bs
           \<and> map snd nb' = map snd nb @ map (\<lambda>a. node @ [a]) acts
           \<and> (wf_tree (mcts_head ag) \<longrightarrow> distinct acts)"
proof (cases "at_path (mcts_head ag) node")
  case None
  with assms show ?thesis by (simp add: beam_select_def)
next
  case (Some nd)
  show ?thesis
  proof (cases "min bs (int (length (children nd))) \<le> int (count_beam_children nd)")
    case True
    with assms Some have "nb' = nb" by (simp add: beam_select_def)
    then show ?thesis by (intro exI [of _ "[]"]) simp
  next
    case False
    then have pos: "0 \<le> bs" by linarith
    from assms Some False
    have p: "push_children nd node tot (select_beam_search bs nd) nb = Inr nb'"
      by (simp add: beam_select_def split: sum.splits)
    have d: "wf_tree (mcts_head ag) \<longrightarrow> distinct (select_beam_search bs nd)"
      using Some wf_tree_at_path wf_tree_children select_beam_search_distinct by blast
    from select_beam_search_length [OF pos, of nd] pos
    have l: "int (length (select_beam_search bs nd)) \<le> max 0 bs" by simp
    from push_children_paths [OF p] l d show ?thesis by blast
  qed
qed


lemma beam_node_pushes:
  assumes run: "beam_node P state bs ag node nb = Ret nb' ag'"
  shows "\<exists>acts. int (length acts) \<le> max 0 bs
           \<and> map snd nb' = map snd nb @ map (\<lambda>a. node @ [a]) acts
           \<and> (wf_tree (mcts_head ag) \<longrightarrow> distinct acts)"
proof (cases "parse_path P ag state node")
  case (Raise e ag1)
  with run show ?thesis by (simp add: beam_node_def)
next
  case (Ret out ag1)
  obtain this_state tot' fin where out: "out = (this_state, tot', fin)"
    by (cases out) auto
  from parse_path_evolves [of ag P state node] Ret have e1: "evolves 0 ag ag1" by simp
  have nt: "node = [] \<longrightarrow> \<not> fin"
    using Ret out parse_path_Nil_Ret by fastforce
  have e2: "evolves 0 ag (mark_terminal ag1 node fin)"
    by (rule evolves_step [OF e1 mark_terminal_evolves [OF nt]])
  show ?thesis
  proof (cases fin)
    case True
    define ag4 where "ag4 = backup (mark_terminal ag1 node fin) node (episode_reward ag1 + tot')"
    from evolves_trans [OF backup_evolves e2]
    have e4: "evolves (Suc 0) ag ag4" by (simp add: ag4_def)
    from run Ret out True have "beam_select bs ag4 node tot' nb = Ret nb' ag'"
      by (simp add: beam_node_def ag4_def)
    from beam_select_pushes [OF this] evolves_wf_tree [OF e4] show ?thesis by blast
  next
    case False
    show ?thesis
    proof (cases "expand_if_needed P (mark_terminal ag1 node fin) this_state node")
      case (Raise e ag3)
      with run Ret out False show ?thesis by (simp add: beam_node_def)
    next
      case r3: (Ret u ag3)
      from evolves_step [OF e2 expand_if_needed_evolves [of _ P this_state node]] r3
      have e3: "evolves 0 ag ag3" by simp
      from run Ret out False r3 have "beam_select bs ag3 node tot' nb = Ret nb' ag'"
        by (simp add: beam_node_def)
      from beam_select_pushes [OF this] evolves_wf_tree [OF e3] show ?thesis by blast
    qed
  qed
qed

lemma beam_round_frontier:
  assumes "beam_round P state bs ag beam nb = Ret nb' ag'"
      and "wf_tree (mcts_head ag)"
      and "\<forall>q \<in> snd ` set beam. length q = k"
      and "distinct (map snd beam)"
      and "\<forall>q \<in> snd ` set nb. length q = Suc k \<and> butlast q \<notin> snd ` set beam"
      and "distinct (map snd nb)"
  shows "(\<forall>q \<in> snd ` set nb'. length q = Suc k) \<and> distinct (map snd nb')"
  using assms
proof (induction beam arbitrary: ag nb)
  case Nil
  then show ?case by auto
next
  case (Cons entry beam)
  obtain r node where entry: "entry = (r, node)" by (cases entry) auto
  show ?case
  proof (cases "beam_node P state bs ag node nb")
    case (Raise e ag1)
    with Cons.prems(1) entry show ?thesis by simp
  next
    case (Ret nb1 ag1)
    from beam_node_pushes [OF Ret] Cons.prems(2) obtain acts where
      acts: "map snd nb1 = map snd nb @ map (\<lambda>a. node @ [a]) acts" "distinct acts"
      by blast
    from beam_node_evolves [of ag P state bs node nb] Ret
    obtain j where "evolves j ag ag1" by auto
    from evolves_wf_tree [OF this Cons.prems(2)] have wf1: "wf_tree (mcts_head ag1)" .
    from Cons.prems(1) entry Ret have run: "beam_round P state bs ag1 beam nb1 = Ret nb' ag'"
      by simp
    have len_node: "length node = k" using Cons.prems(3) entry by simp
    have notin: "node \<notin> snd ` set beam" using Cons.prems(4) entry by (simp add: image_iff)
    have set1: "snd ` set nb1 = snd ` set nb \<union> (\<lambda>a. node @ [a]) ` set acts"
    proof -
      have "set (map snd nb1) = set (map snd nb @ map (\<lambda>a. node @ [a]) acts)"
        by (simp only: acts(1))
      then show ?thesis by simp
    qed
    have p3: "\<forall>q \<in> snd ` set beam. length q = k" using Cons.prems(3) by simp
    have p4: "distinct (map snd beam)" using Cons.prems(4) by simp
    have p5: "\<forall>q \<in> snd ` set nb1. length q = Suc k \<and> butlast q \<notin> snd ` set beam"
    proof
      fix q assume "q \<in> snd ` set nb1"
      then consider "q \<in> snd ` set nb" | a where "q = node @ [a]"
        unfolding set1 by blast
      then show "length q = Suc k \<and> butlast q \<notin> snd ` set beam"
      proof cases
        case 1
        with Cons.prems(5) show ?thesis by auto
      next
        case 2
        with len_node notin show ?thesis by simp
      qed
    qed
    have "distinct (map snd nb @ map (\<lambda>a. node @ [a]) acts)"
    proof -
      have a: "distinct (map (\<lambda>a. node @ [a]) acts)"
        using acts(2) by (simp add: distinct_map inj_on_def)
      have b: "set (map snd nb) \<inter> set (map (\<lambda>a. node @ [a]) acts) = {}"
        using Cons.prems(5) entry by auto
      from Cons.prems(6) a b show ?thesis by (simp only: distinct_append)
    qed
    then have p6: "distinct (map snd nb1)" by (simp only: acts(1))
    from Cons.IH [OF run wf1 p3 p4 p5 p6] show ?thesis .
  qed
qed

lemma graded_distinct:
  assumes "\<forall>i < length rounds. \<forall>q \<in> snd ` set (rounds ! i). length q = i"
      and "\<forall>i < length rounds. distinct (map snd (rounds ! i))"
  shows "distinct (concat (map (map snd) rounds))"
  using assms
proof (induction rounds rule: rev_induct)
  case Nil
  show ?case by simp
next
  case (snoc r rounds)
  have 1: "\<forall>i < length rounds. \<forall>q \<in> snd ` set (rounds ! i). length q = i"
    using snoc.prems(1) by (auto simp: nth_append split: if_splits)
  have 2: "\<forall>i < length rounds. distinct (map snd (rounds ! i))"
    using snoc.prems(2) by (metis length_append_singleton less_SucI nth_append)
  have 3: "distinct (map snd r)" using snoc.prems(2) by (metis length_append_singleton lessI nth_append_length)
  have 4: "\<forall>q \<in> snd ` set r. length q = length rounds"
    using snoc.prems(1) by (metis length_append_singleton lessI nth_append_length)
  have 5: "set (concat (map (map snd) rounds)) \<inter> set (map snd r) = {}"
  proof -
    { fix q assume a: "q \<in> set (concat (map (map snd) rounds))" and b: "q \<in> set (map snd r)"
      from a obtain r' where "r' \<in> set rounds" "q \<in> snd ` set r'" by auto
      then obtain i where i: "i < length rounds" "q \<in> snd ` set (rounds ! i)"
        by (auto simp: in_set_conv_nth)
      with 1 have "length q = i" by blast
      moreover from b 4 have "length q = length rounds" by auto
      ultimately have False using i(1) by simp }
    then show ?thesis by blast
  qed
  from snoc.IH [OF 1 2] 3 5 show ?case by simp
qed


lemma beam_loop_rounds:
  assumes "beam_loop fuel P state bs ag beam [] rounds = Some (Ret rounds' ag')"
      and "wf_tree (mcts_head ag)"
      and "\<forall>i < length rounds. \<forall>q \<in> snd ` set (rounds ! i). length q = i"
      and "\<forall>i < length rounds. distinct (map snd (rounds ! i))"
      and "\<forall>q \<in> snd ` set beam. length q = length rounds"
      and "distinct (map snd beam)"
  shows "(\<forall>i < length rounds'. \<forall>q \<in> snd ` set (rounds' ! i). length q = i)
         \<and> (\<forall>i < length rounds'. distinct (map snd (rounds' ! i)))"
  using assms
proof (induction fuel arbitrary: ag beam rounds)
  case 0
  then show ?case by simp
next
  case (Suc fuel)
  show ?case
  proof (cases "beam = []")
    case True
    with Suc.prems(1) have "rounds' = rounds" by simp
    with Suc.prems(3,4) show ?thesis by simp
  next
    case False
    show ?thesis
    proof (cases "beam_round P state bs ag beam []")
      case (Raise e ag1)
      with Suc.prems(1) False show ?thesis by simp
    next
      case (Ret nb' ag1)
      define F where "F = py_take bs (sorted_desc fst nb')"
      from Suc.prems(1) False Ret
      have run: "beam_loop fuel P state bs ag1 F [] (rounds @ [beam]) = Some (Ret rounds' ag')"
        by (simp add: F_def)
      from beam_round_evolves [of ag P state bs beam "[]"] Ret
      obtain j where "evolves j ag ag1" by auto
      from evolves_wf_tree [OF this Suc.prems(2)] have wf1: "wf_tree (mcts_head ag1)" .
      from beam_round_frontier [OF Ret Suc.prems(2) Suc.prems(5) Suc.prems(6)]
      have fr: "\<forall>q \<in> snd ` set nb'. length q = Suc (length rounds)" "distinct (map snd nb')"
        by simp_all
      have sub: "set F \<subseteq> set nb'"
        using set_py_take [of bs "sorted_desc fst nb'"] by (simp add: F_def set_sorted_desc)
      have g1: "\<forall>i < length (rounds @ [beam]). \<forall>q \<in> snd ` set ((rounds @ [beam]) ! i). length q = i"
        using Suc.prems(3) Suc.prems(5) by (auto simp: nth_append)
      have g2: "\<forall>i < length (rounds @ [beam]). distinct (map snd ((rounds @ [beam]) ! i))"
        using Suc.prems(4) Suc.prems(6) by (auto simp: nth_append)
      have g3: "\<forall>q \<in> snd ` set F. length q = length (rounds @ [beam])"
        using fr(1) sub by auto
      have g4: "distinct (map snd F)"
        unfolding F_def using fr(2)
        by (intro distinct_map_py_take) (simp add: distinct_map_sorted_desc)
      from Suc.IH [OF run wf1 g1 g2 g3 g4] show ?thesis .
    qed
  qed
qed

text \<open>
  Claim C6. In one invocation of beam search that returns, no node is processed twice: the
  nodes of all the frontiers, taken together, are distinct. In a round, a node adds at
  most \<open>beam_size\<close> entries to the next frontier, all of them its children. The next
  frontier is the first part of the entries of the round sorted by descending cumulative
  reward: nothing retained has a lower reward than anything dropped, the sorted list is a
  permutation of the entries, and at most \<open>beam_size\<close> entries are retained. The loop
  ends exactly when the current and the next frontier are both empty, and runs a round
  otherwise.
\<close>

theorem beam_search_frontiers:
  "(wf_tree (mcts_head ag) \<and> beam_search fuel P ag state bs = Some (Ret rounds ag')
      \<longrightarrow> distinct (concat (map (map snd) rounds)))
   \<and> (beam_node P state bs ag node nb = Ret nb' ag1
      \<longrightarrow> (\<exists>acts. int (length acts) \<le> max 0 bs
            \<and> map snd nb' = map snd nb @ map (\<lambda>a. node @ [a]) acts))
   \<and> (\<exists>n. py_take bs (sorted_desc fst xs) = take n (sorted_desc fst xs)
        \<and> (\<forall>x \<in> set (take n (sorted_desc fst xs)).
             \<forall>y \<in> set (drop n (sorted_desc fst xs)). fst y \<le> fst x))
   \<and> mset (sorted_desc fst xs) = mset xs
   \<and> (0 \<le> bs \<longrightarrow> length (py_take bs (sorted_desc fst xs)) \<le> nat bs)
   \<and> beam_loop (Suc fuel) P state bs ag [] [] rounds = Some (Ret rounds ag)
   \<and> (beam \<noteq> [] \<or> nb \<noteq> []
      \<longrightarrow> beam_loop (Suc fuel) P state bs ag beam nb rounds =
            (case beam_round P state bs ag beam nb of
               Raise e ag2 \<Rightarrow> Some (Raise e ag2)
             | Ret nb2 ag2 \<Rightarrow>
                 beam_loop fuel P state bs ag2 (py_take bs (sorted_desc fst nb2)) []
                   (rounds @ [beam])))"
proof -
  have 1: "distinct (concat (map (map snd) rounds))"
    if w: "wf_tree (mcts_head ag)" and r: "beam_search fuel P ag state bs = Some (Ret rounds ag')"
  proof -
    from r have "beam_loop fuel P state bs ag [(episode_reward ag, [])] [] [] = Some (Ret rounds ag')"
      by (simp add: beam_search_def)
    from beam_loop_rounds [OF this w] show ?thesis
      by (intro graded_distinct) simp_all
  qed
  have 2: "\<exists>acts. int (length acts) \<le> max 0 bs
            \<and> map snd nb' = map snd nb @ map (\<lambda>a. node @ [a]) acts"
    if "beam_node P state bs ag node nb = Ret nb' ag1"
    using beam_node_pushes [OF that] by blast
  obtain n where n: "py_take bs (sorted_desc fst xs) = take n (sorted_desc fst xs)"
    using py_take_is_take by blast
  have 3: "\<exists>n. py_take bs (sorted_desc fst xs) = take n (sorted_desc fst xs)
        \<and> (\<forall>x \<in> set (take n (sorted_desc fst xs)).
             \<forall>y \<in> set (drop n (sorted_desc fst xs)). fst y \<le> fst x)"
    using n sorted_desc_split [of _ n fst xs] by blast
  have 4: "mset (sorted_desc fst xs) = mset xs" by (rule mset_sorted_desc)
  have 5: "0 \<le> bs \<longrightarrow> length (py_take bs (sorted_desc fst xs)) \<le> nat bs"
    using py_take_length by blast
  have 6: "beam_loop (Suc fuel) P state bs ag [] [] rounds = Some (Ret rounds ag)" by simp
  have 7: "beam \<noteq> [] \<or> nb \<noteq> []
      \<longrightarrow> beam_loop (Suc fuel) P state bs ag beam nb rounds =
            (case beam_round P state bs ag beam nb of
               Raise e ag2 \<Rightarrow> Some (Raise e ag2)
             | Ret nb2 ag2 \<Rightarrow>
                 beam_loop fuel P state bs ag2 (py_take bs (sorted_desc fst nb2)) []
                   (rounds @ [beam]))"
    by auto
  from 1 2 3 4 5 6 7 show ?thesis by blast
qed

text \<open>Beam search of width 2 on the small environment with four particles: four rounds,
  seven distinct nodes.\<close>

theorem beam_search_frontiers_witness:
  "wf_tree (mcts_head (toy_agent MCBSAgent 4))
   \<and> map_option value_of (beam_search 10 toy (toy_agent MCBSAgent 4) 4 2) =
       Some (Some [[(0, [])], [(- 1, [0]), (- 2, [1])], [(- 2, [0, 0]), (- 3, [0, 1])],
                   [(- 3, [0, 0, 0]), (- 4, [0, 1, 0])]])
   \<and> distinct (concat (map (map snd)
        [[(0, [])], [(- 1, [0]), (- 2, [1])], [(- 2, [0, 0]), (- 3, [0, 1])],
         [(- 3, [0, 0, 0]), (- 4, [0, 1, 0 :: nat])] :: (int \<times> nat list) list]))
   \<and> value_of (beam_node toy 4 2 (toy_agent MCBSAgent 4) [] []) = Some [(- 1, [0]), (- 2, [1])]"
proof -
  have w: "wf_tree (mcts_head (toy_agent MCBSAgent 4))" by code_simp
  have h: "map_option value_of (beam_search 10 toy (toy_agent MCBSAgent 4) 4 2) =
       Some (Some [[(0, [])], [(- 1, [0]), (- 2, [1])], [(- 2, [0, 0]), (- 3, [0, 1])],
                   [(- 3, [0, 0, 0]), (- 4, [0, 1, 0])]])"
    by code_simp
  have n: "value_of (beam_node toy 4 2 (toy_agent MCBSAgent 4) [] []) = Some [(- 1, [0]), (- 2, [1])]"
    by code_simp
  from h obtain ag' where r: "beam_search 10 toy (toy_agent MCBSAgent 4) 4 2 =
      Some (Ret [[(0, [])], [(- 1, [0]), (- 2, [1])], [(- 2, [0, 0]), (- 3, [0, 1])],
                   [(- 3, [0, 0, 0]), (- 4, [0, 1, 0])]] ag')"
    by (cases "beam_search 10 toy (toy_agent MCBSAgent 4) 4 2")
      (auto elim: value_of.elims)
  from beam_search_frontiers [where P = toy and ag = "toy_agent MCBSAgent 4" and fuel = 10
      and state = 4 and bs = 2 and ag' = ag'
      and rounds = "[[(0, [])], [(- 1, [0]), (- 2, [1])], [(- 2, [0, 0]), (- 3, [0, 1])],
                   [(- 3, [0, 0, 0]), (- 4, [0, 1, 0])]]"] w r
  have "distinct (concat (map (map snd)
        [[(0, [])], [(- 1, [0]), (- 2, [1])], [(- 2, [0, 0]), (- 3, [0, 1])],
         [(- 3, [0, 0, 0]), (- 4, [0, 1, 0 :: nat])] :: (int \<times> nat list) list]))"
    by blast
  with w h n show ?thesis by blast
qed

section \<open>Greedy expansion: the descent\<close>





lemma skel_upd:
  "(\<And>c. q_step (g c) = q_step c)
     \<Longrightarrow> map (\<lambda>(a, c). (a, q_step c)) (map (\<lambda>(x, c). if x = b then (x, g c) else (x, c)) cs)
         = map (\<lambda>(a, c). (a, q_step c)) cs"
  by (induction cs) auto





























subsection \<open>What the descent leaves in the tree\<close>





























end
